theory Spec2Isabelle
  imports Complex_Main "HOL-Library.AList"
begin

section \<open>Constants of index.js\<close>

definition MAX_IMAGE_SIZE_MB :: nat where "MAX_IMAGE_SIZE_MB = 2"
definition TARGET_WIDTH :: nat where "TARGET_WIDTH = 1920"
definition IMAGES_PER_FILE :: nat where "IMAGES_PER_FILE = 15"

section \<open>Chunking (the loop of createPDFsFromImages)\<close>

text \<open>
  \<^verbatim>\<open>Array.prototype.slice(a, b)\<close> for \<open>0 \<le> a \<le> b\<close>: the elements at positions
  \<open>a, ..., b - 1\<close> that exist; both ends are clamped to the length.
\<close>

definition slice :: "'a list \<Rightarrow> nat \<Rightarrow> nat \<Rightarrow> 'a list" where
  "slice xs a b = take (b - a) (drop a xs)"

text \<open>
  \<^verbatim>\<open>for (let i = 0; i < files.length; i += IMAGES_PER_FILE) {
    const chunk = files.slice(i, i + IMAGES_PER_FILE);
    tasks.push(createPDF(chunk, Math.floor(i / IMAGES_PER_FILE) + 1)); }\<close>
  The loop, from counter \<open>i\<close> on; each task is the pair of the chunk and its
  1-based index, in the order of the pushes.
\<close>

function chunk_loop :: "'a list \<Rightarrow> nat \<Rightarrow> ('a list \<times> nat) list" where
  "chunk_loop files i =
     (if i < length files
      then (slice files i (i + IMAGES_PER_FILE), i div IMAGES_PER_FILE + 1)
             # chunk_loop files (i + IMAGES_PER_FILE)
      else [])"
  by pat_completeness auto
termination
  by (relation "measure (\<lambda>(files, i). length files - i)")
     (auto simp: IMAGES_PER_FILE_def)

declare chunk_loop.simps [simp del]

definition chunk_tasks :: "'a list \<Rightarrow> ('a list \<times> nat) list" where
  "chunk_tasks files = chunk_loop files 0"

section \<open>Page layout (the body of createPDF)\<close>

definition PAGE_WIDTH :: int where "PAGE_WIDTH = 600"
definition PAGE_HEIGHT :: int where "PAGE_HEIGHT = 800"
definition IMAGE_MAX_WIDTH :: int where "IMAGE_MAX_WIDTH = 150"
definition IMAGE_MAX_HEIGHT :: int where "IMAGE_MAX_HEIGHT = 100"
definition MARGIN_X :: int where "MARGIN_X = 25"
definition MARGIN_Y :: int where "MARGIN_Y = 25"
definition SPACING_X :: int where "SPACING_X = 10"
definition SPACING_Y :: int where "SPACING_Y = 10"

lemmas geometry_defs =
  PAGE_WIDTH_def PAGE_HEIGHT_def IMAGE_MAX_WIDTH_def IMAGE_MAX_HEIGHT_def
  MARGIN_X_def MARGIN_Y_def SPACING_X_def SPACING_Y_def IMAGES_PER_FILE_def

text \<open>
  The paths that index.js builds: \<^verbatim>\<open>path.join(inputFolder, file)\<close>,
  \<^verbatim>\<open>path.join(compressedFolder, file)\<close>, \<^verbatim>\<open>path.join(pdfFolder, name)\<close> and
  \<^verbatim>\<open>finalPDF\<close>. The three folders and the final file have four different names in the
  working directory, so each is a component of the state of its own.
\<close>

datatype path = Input string | Compressed string | Pdf string | Final

text \<open>
  The image object that \<^verbatim>\<open>doc.openImage\<close> returns; the layout reads its pixel width and
  height only.
\<close>

record img =
  width :: nat
  height :: nat

text \<open>
  The calls made on the pdfkit document, in order. \<open>Image p x y im\<close> is
  \<^verbatim>\<open>doc.image(p, x, y, {width: im.width * scale, height: im.height * scale})\<close> and
  \<open>Text name x y im\<close> is the caption
  \<^verbatim>\<open>doc.fontSize(10).text(name, x, y + im.height * scale + 5, {width: 150, align: 'center'})\<close>,
  with \<^verbatim>\<open>scale = Math.min(150 / im.width, 100 / im.height)\<close>. The scaled sizes are
  floating-point values fixed by \<open>im\<close>; the cursor \<open>x\<close>, \<open>y\<close> takes small integer values
  only, which the doubles of JavaScript hold exactly.
\<close>

datatype wop = AddPage int int | Image path int int img | Text string int int img

type_synonym pdfdoc = "wop list"

fun is_AddPage :: "wop \<Rightarrow> bool" where
  "is_AddPage (AddPage w h) = True"
| "is_AddPage _ = False"

definition has_page :: "pdfdoc \<Rightarrow> bool" where
  "has_page d = (filter is_AddPage d \<noteq> [])"

text \<open>The number of pages that index.js itself starts: its calls of \<^verbatim>\<open>addPage\<close>.\<close>

definition addPage_calls :: "pdfdoc \<Rightarrow> nat" where
  "addPage_calls d = length (filter is_AddPage d)"

text \<open>
  The pages of the document. Besides the pages that index.js adds, pdfkit's \<^verbatim>\<open>text\<close>
  adds pages of its own: it wraps the caption in the width of 150 and, when a line
  would pass the bottom margin of the page, continues on a new page. How many pages a
  caption adds depends on the font metrics; \<open>text_pages name x y im\<close> is that number for
  the call \<open>Text name x y im\<close>, 0 when the caption fits. \<^verbatim>\<open>image\<close> and \<^verbatim>\<open>addPage\<close> add
  nothing of their own.
\<close>

fun auto_pages :: "(string \<Rightarrow> int \<Rightarrow> int \<Rightarrow> img \<Rightarrow> nat) \<Rightarrow> wop \<Rightarrow> nat" where
  "auto_pages text_pages (Text name x y im) = text_pages name x y im"
| "auto_pages text_pages (Image p x y im) = 0"
| "auto_pages text_pages (AddPage w h) = 0"

definition page_count :: "(string \<Rightarrow> int \<Rightarrow> int \<Rightarrow> img \<Rightarrow> nat) \<Rightarrow> pdfdoc \<Rightarrow> nat" where
  "page_count text_pages d = addPage_calls d + sum_list (map (auto_pages text_pages) d)"

text \<open>
  The document is created with \<^verbatim>\<open>autoFirstPage: false\<close>: until the first
  \<^verbatim>\<open>addPage\<close> it has no current page, and pdfkit's \<^verbatim>\<open>image\<close> and \<^verbatim>\<open>text\<close>, which draw on
  the current page, throw. \<open>None\<close> is the throw.
\<close>

definition doc_addPage :: "pdfdoc \<Rightarrow> int \<Rightarrow> int \<Rightarrow> pdfdoc" where
  "doc_addPage d w h = d @ [AddPage w h]"

definition doc_image :: "pdfdoc \<Rightarrow> path \<Rightarrow> int \<Rightarrow> int \<Rightarrow> img \<Rightarrow> pdfdoc option" where
  "doc_image d p x y im = (if has_page d then Some (d @ [Image p x y im]) else None)"

definition doc_text :: "pdfdoc \<Rightarrow> string \<Rightarrow> int \<Rightarrow> int \<Rightarrow> img \<Rightarrow> pdfdoc option" where
  "doc_text d name x y im = (if has_page d then Some (d @ [Text name x y im]) else None)"

text \<open>
  What a call can throw: the errors of the file system, a document that pdf-lib cannot
  parse, and the two ways in which an awaited promise gives nothing: \<open>Uncaught\<close>, an
  error event that nothing listens to, and \<open>NeverSettled\<close>.
\<close>

datatype error = ENOENT | ENOTDIR | EISDIR | ENOTEMPTY | ParseError | Uncaught | NeverSettled

text \<open>What the program prints, one constructor for each console call of index.js.\<close>

datatype event =
    LogStart
  | LogInvalidImage path
  | LogCompressing string
  | LogCompressed path
  | LogCompressError path
  | LogCopied string
  | LogAddError path
  | LogGenerated "path list"
  | LogMerged
  | LogDone
  | LogFatal error

text \<open>
  The state that the \<^verbatim>\<open>forEach\<close> callback of createPDF mutates: the document, the
  cursor (\<^verbatim>\<open>x\<close> and \<^verbatim>\<open>y\<close> of the source) and the console.
\<close>

record lstate =
  doc :: pdfdoc
  cursor_x :: int
  cursor_y :: int
  console :: "event list"

text \<open>
  One call of the \<^verbatim>\<open>forEach\<close> callback, for the image \<open>file\<close> at position \<open>index\<close>.
  \<open>opener\<close> is \<^verbatim>\<open>doc.openImage\<close> on the file's path in the compressed folder
  (\<open>None\<close>: it throws). Every throw inside the \<^verbatim>\<open>try\<close> goes to the \<^verbatim>\<open>catch\<close>, which logs;
  what was mutated before the throw stays mutated.
\<close>

definition place :: "(string \<Rightarrow> img option) \<Rightarrow> string \<Rightarrow> nat \<Rightarrow> lstate \<Rightarrow> lstate" where
  "place opener file index s =
     (case opener file of
        None \<Rightarrow> s\<lparr>console := console s @ [LogAddError (Compressed file)]\<rparr>
      | Some im \<Rightarrow>
          let s1 = (if index mod IMAGES_PER_FILE = 0
                    then s\<lparr>doc := doc_addPage (doc s) PAGE_WIDTH PAGE_HEIGHT,
                           cursor_x := MARGIN_X, cursor_y := MARGIN_Y\<rparr>
                    else s)
          in (case doc_image (doc s1) (Compressed file) (cursor_x s1) (cursor_y s1) im of
                None \<Rightarrow> s1\<lparr>console := console s1 @ [LogAddError (Compressed file)]\<rparr>
              | Some d1 \<Rightarrow>
                 (case doc_text d1 file (cursor_x s1) (cursor_y s1) im of
                    None \<Rightarrow> s1\<lparr>doc := d1,
                                 console := console s1 @ [LogAddError (Compressed file)]\<rparr>
                  | Some d2 \<Rightarrow>
                      let x2 = cursor_x s1 + (IMAGE_MAX_WIDTH + SPACING_X)
                      in if x2 + IMAGE_MAX_WIDTH > PAGE_WIDTH - MARGIN_X
                         then s1\<lparr>doc := d2, cursor_x := MARGIN_X,
                                 cursor_y := cursor_y s1 + (IMAGE_MAX_HEIGHT + SPACING_Y + 20)\<rparr>
                         else s1\<lparr>doc := d2, cursor_x := x2\<rparr>)))"

text \<open>\<^verbatim>\<open>images.forEach((file, index) => ...)\<close> from position \<open>index\<close> on.\<close>

fun forEach_place ::
  "(string \<Rightarrow> img option) \<Rightarrow> string list \<Rightarrow> nat \<Rightarrow> lstate \<Rightarrow> lstate" where
  "forEach_place opener [] index s = s"
| "forEach_place opener (file # rest) index s =
     forEach_place opener rest (Suc index) (place opener file index s)"

text \<open>
  The synchronous part of createPDF: a fresh document, the cursor at the margins, the
  loop over the chunk. The result holds the calls that \<^verbatim>\<open>doc.end()\<close> then serialises.
\<close>

definition createPDF_layout :: "(string \<Rightarrow> img option) \<Rightarrow> string list \<Rightarrow> lstate" where
  "createPDF_layout opener images =
     forEach_place opener images 0
       \<lparr>doc = [], cursor_x = MARGIN_X, cursor_y = MARGIN_Y, console = []\<rparr>"

text \<open>
  The closed form of the cursor: within a page the images fill rows of three cells,
  160 apart, the rows 130 apart; the position depends on the index modulo 15 only.
\<close>

definition cell_x :: "nat \<Rightarrow> int" where
  "cell_x i = 25 + 160 * int ((i mod 15) mod 3)"

definition cell_y :: "nat \<Rightarrow> int" where
  "cell_y i = 25 + 130 * int ((i mod 15) div 3)"

text \<open>
  The calls expected on the writer for the images from position \<open>i\<close> on when every
  image places: a page is added before an image exactly if its index is a multiple of
  15, and each image and its caption go to the cell of its index.
\<close>

fun expected_calls :: "(string \<Rightarrow> img option) \<Rightarrow> string list \<Rightarrow> nat \<Rightarrow> wop list" where
  "expected_calls opener [] i = []"
| "expected_calls opener (file # rest) i =
     (if i mod 15 = 0 then [AddPage 600 800] else [])
     @ [Image (Compressed file) (cell_x i) (cell_y i) (the (opener file)),
        Text file (cell_x i) (cell_y i) (the (opener file))]
     @ expected_calls opener rest (Suc i)"

text \<open>
  A stand-in for the page breaks of pdfkit's \<^verbatim>\<open>text\<close> with its default font at size 10:
  thirty characters to a line of width 150, the lines 12 apart, the caption starting 105
  below the cursor (an image scaled to the full cell height of 100, and the offset 5),
  and the bottom margin of the page of height 800 at 800 - 72 = 728.
\<close>

definition demo_text_pages :: "string \<Rightarrow> int \<Rightarrow> int \<Rightarrow> img \<Rightarrow> nat" where
  "demo_text_pages name x y im =
     (if y + 105 + 12 * int ((length name + 29) div 30) > 728 then 1 else 0)"

text \<open>
  A chunk of thirteen images; the last one, the first of the fifth row, has a name of
  198 characters.
\<close>

definition thirteen_names :: "string list" where
  "thirteen_names =
     [''a.jpg'', ''b.jpg'', ''c.jpg'', ''d.jpg'', ''e.jpg'', ''f.jpg'',
      ''g.jpg'', ''h.jpg'', ''i.jpg'', ''j.jpg'', ''k.jpg'', ''l.jpg'',
      replicate 194 CHR ''m'' @ ''.jpg'']"

text \<open>Two openers for concrete runs: one that opens every file, one that fails on one name.\<close>

definition demo_img :: img where
  "demo_img = \<lparr>width = 3000, height = 2000\<rparr>"

definition opener_all :: "string \<Rightarrow> img option" where
  "opener_all file = Some demo_img"

definition opener_except :: "string \<Rightarrow> string \<Rightarrow> img option" where
  "opener_except bad file = (if file = bad then None else Some demo_img)"

section \<open>The file system and the external libraries\<close>

type_synonym bytes = "nat list"

text \<open>
  A directory lists its entries in the order in which \<^verbatim>\<open>fs.readdirSync\<close> enumerates
  them.
\<close>

datatype node = File bytes | Dir "(string \<times> node) list"

record world =
  inputFolder :: "node option"
  compressedFolder :: "node option"
  pdfFolder :: "node option"
  finalPDF :: "node option"
  printed :: "event list"

type_synonym pdfpage = "wop list"

text \<open>
  What index.js calls and does not define: sharp (metadata; resize to a width, encode
  as JPEG at a quality, \<open>None\<close> when it throws), pdfkit (opening an image; the bytes
  that \<^verbatim>\<open>doc.end()\<close> sends to the stream), pdf-lib (load, save), \<^verbatim>\<open>path.extname\<close>,
  \<^verbatim>\<open>String.prototype.toLowerCase\<close> and the date of the run.
\<close>

record env =
  sharp_metadata :: "bytes \<Rightarrow> img option"
  sharp_resize_jpeg :: "bytes \<Rightarrow> nat \<Rightarrow> nat \<Rightarrow> bytes option"
  pdfkit_openImage :: "bytes \<Rightarrow> img option"
  pdfkit_end :: "pdfdoc \<Rightarrow> bytes"
  pdflib_load :: "bytes \<Rightarrow> pdfpage list option"
  pdflib_save :: "pdfpage list \<Rightarrow> bytes"
  extname :: "string \<Rightarrow> string"
  toLowerCase :: "string \<Rightarrow> string"
  formattedDate :: string

definition log :: "event \<Rightarrow> world \<Rightarrow> world" where
  "log e w = w\<lparr>printed := printed w @ [e]\<rparr>"

definition entry :: "node option \<Rightarrow> string \<Rightarrow> node option" where
  "entry folder name = (case folder of Some (Dir es) \<Rightarrow> map_of es name | _ \<Rightarrow> None)"

fun lookup :: "world \<Rightarrow> path \<Rightarrow> node option" where
  "lookup w (Input name) = entry (inputFolder w) name"
| "lookup w (Compressed name) = entry (compressedFolder w) name"
| "lookup w (Pdf name) = entry (pdfFolder w) name"
| "lookup w Final = finalPDF w"

definition readdirSync :: "node option \<Rightarrow> error + string list" where
  "readdirSync folder =
     (case folder of
        None \<Rightarrow> Inl ENOENT
      | Some (File b) \<Rightarrow> Inl ENOTDIR
      | Some (Dir es) \<Rightarrow> Inr (map fst es))"

definition readFileSync :: "world \<Rightarrow> path \<Rightarrow> error + bytes" where
  "readFileSync w p =
     (case lookup w p of
        None \<Rightarrow> Inl ENOENT
      | Some (Dir es) \<Rightarrow> Inl EISDIR
      | Some (File b) \<Rightarrow> Inr b)"

text \<open>
  Creating or overwriting the regular file \<open>name\<close> in a folder; it fails when the
  folder is missing or is not a directory, and when the name is that of a directory.
\<close>

definition put_file :: "node option \<Rightarrow> string \<Rightarrow> bytes \<Rightarrow> error + node option" where
  "put_file folder name b =
     (case folder of
        None \<Rightarrow> Inl ENOENT
      | Some (File c) \<Rightarrow> Inl ENOTDIR
      | Some (Dir es) \<Rightarrow>
          (case map_of es name of
             Some (Dir sub) \<Rightarrow> Inl EISDIR
           | _ \<Rightarrow> Inr (Some (Dir (AList.update name (File b) es)))))"

fun writeFileSync :: "world \<Rightarrow> path \<Rightarrow> bytes \<Rightarrow> error + world" where
  "writeFileSync w (Input name) b =
     (case put_file (inputFolder w) name b of
        Inl e \<Rightarrow> Inl e | Inr d \<Rightarrow> Inr (w\<lparr>inputFolder := d\<rparr>))"
| "writeFileSync w (Compressed name) b =
     (case put_file (compressedFolder w) name b of
        Inl e \<Rightarrow> Inl e | Inr d \<Rightarrow> Inr (w\<lparr>compressedFolder := d\<rparr>))"
| "writeFileSync w (Pdf name) b =
     (case put_file (pdfFolder w) name b of
        Inl e \<Rightarrow> Inl e | Inr d \<Rightarrow> Inr (w\<lparr>pdfFolder := d\<rparr>))"
| "writeFileSync w Final b =
     (case finalPDF w of
        Some (Dir es) \<Rightarrow> Inl EISDIR
      | _ \<Rightarrow> Inr (w\<lparr>finalPDF := Some (File b)\<rparr>))"

definition copyFileSync :: "world \<Rightarrow> path \<Rightarrow> path \<Rightarrow> error + world" where
  "copyFileSync w src dest =
     (case readFileSync w src of
        Inl e \<Rightarrow> Inl e
      | Inr b \<Rightarrow> writeFileSync w dest b)"

text \<open>
  Lines 21 and 22: each working folder is created unless something of its name exists.
\<close>

definition mkdir_unless_exists :: "node option \<Rightarrow> node option" where
  "mkdir_unless_exists folder = (case folder of None \<Rightarrow> Some (Dir []) | Some n \<Rightarrow> Some n)"

definition init :: "world \<Rightarrow> world" where
  "init w = w\<lparr>compressedFolder := mkdir_unless_exists (compressedFolder w),
              pdfFolder := mkdir_unless_exists (pdfFolder w)\<rparr>"

section \<open>Normalisation (validateImage, compressImage, analyzeAndCompressImages)\<close>

text \<open>The filter of lines 50 to 52 and 137 to 139.\<close>

definition is_image_name :: "env \<Rightarrow> string \<Rightarrow> bool" where
  "is_image_name env file =
     (toLowerCase env (extname env file) \<in> set [''.jpg'', ''.jpeg'', ''.png''])"

text \<open>
  validateImage: the metadata, or \<open>None\<close> (\<^verbatim>\<open>null\<close>) and a line on the console when sharp
  throws, as it does when the path cannot be read as a file.
\<close>

definition validateImage :: "env \<Rightarrow> path \<Rightarrow> world \<Rightarrow> img option \<times> world" where
  "validateImage env inputPath w =
     (case readFileSync w inputPath of
        Inl e \<Rightarrow> (None, log (LogInvalidImage inputPath) w)
      | Inr b \<Rightarrow>
          (case sharp_metadata env b of
             None \<Rightarrow> (None, log (LogInvalidImage inputPath) w)
           | Some metadata \<Rightarrow> (Some metadata, w)))"

text \<open>
  compressImage: every throw of the sharp pipeline, in reading, resizing, encoding or
  writing, is caught and logged; the function itself never throws.
\<close>

definition compressImage :: "env \<Rightarrow> path \<Rightarrow> path \<Rightarrow> world \<Rightarrow> world" where
  "compressImage env inputPath outputPath w =
     (case readFileSync w inputPath of
        Inl e \<Rightarrow> log (LogCompressError inputPath) w
      | Inr b \<Rightarrow>
          (case sharp_resize_jpeg env b TARGET_WIDTH 80 of
             None \<Rightarrow> log (LogCompressError inputPath) w
           | Some out \<Rightarrow>
               (case writeFileSync w outputPath out of
                  Inl e \<Rightarrow> log (LogCompressError inputPath) w
                | Inr w' \<Rightarrow> log (LogCompressed outputPath) w')))"

text \<open>
  The body of the loop of analyzeAndCompressImages for one file. \<open>Inl\<close> is a throw that
  leaves the function; the world that comes with it is the world at the throw.
  \<^verbatim>\<open>stats.size / (1024 * 1024) > MAX_IMAGE_SIZE_MB\<close> divides by a power of two, which is
  exact in doubles, so it is the comparison of the size with 2 * 1024 * 1024.
\<close>

definition normalize_file :: "env \<Rightarrow> string \<Rightarrow> world \<Rightarrow> (error + unit) \<times> world" where
  "normalize_file env file w =
     (let inputPath = Input file;
          outputPath = Compressed file;
          (metadata, w1) = validateImage env inputPath w
      in case metadata of
           None \<Rightarrow> (Inr (), w1)
         | Some m \<Rightarrow>
             (case readFileSync w1 inputPath of
                Inl e \<Rightarrow> (Inl e, w1)
              | Inr b \<Rightarrow>
                  if length b > MAX_IMAGE_SIZE_MB * (1024 * 1024)
                  then (Inr (), compressImage env inputPath outputPath (log (LogCompressing file) w1))
                  else (case copyFileSync w1 inputPath outputPath of
                          Inl e \<Rightarrow> (Inl e, w1)
                        | Inr w2 \<Rightarrow> (Inr (), log (LogCopied file) w2))))"

text \<open>A \<^verbatim>\<open>for ... of\<close> loop whose body may throw.\<close>

fun for_each :: "('a \<Rightarrow> world \<Rightarrow> (error + unit) \<times> world) \<Rightarrow> 'a list \<Rightarrow> world
                  \<Rightarrow> (error + unit) \<times> world" where
  "for_each body [] w = (Inr (), w)"
| "for_each body (a # rest) w =
     (case body a w of
        (Inl e, w') \<Rightarrow> (Inl e, w')
      | (Inr u, w') \<Rightarrow> for_each body rest w')"

definition analyzeAndCompressImages :: "env \<Rightarrow> world \<Rightarrow> (error + unit) \<times> world" where
  "analyzeAndCompressImages env w =
     (case readdirSync (inputFolder w) of
        Inl e \<Rightarrow> (Inl e, w)
      | Inr names \<Rightarrow> for_each (normalize_file env) (filter (is_image_name env) names) w)"

text \<open>
  Whether a regular file of this name can be created or overwritten in the folder: the
  folder is a directory and the name is not that of a directory in it.
\<close>

definition can_write :: "node option \<Rightarrow> string \<Rightarrow> bool" where
  "can_write folder name =
     (case folder of
        Some (Dir es) \<Rightarrow> (case map_of es name of Some (Dir sub) \<Rightarrow> False | _ \<Rightarrow> True)
      | _ \<Rightarrow> False)"

definition is_dir :: "node option \<Rightarrow> bool" where
  "is_dir folder = (case folder of Some (Dir es) \<Rightarrow> True | _ \<Rightarrow> False)"

text \<open>Two worlds that hold the same folders and files; the console may differ.\<close>

definition same_files :: "world \<Rightarrow> world \<Rightarrow> bool" where
  "same_files w1 w2 =
     (inputFolder w1 = inputFolder w2 \<and> compressedFolder w1 = compressedFolder w2
      \<and> pdfFolder w1 = pdfFolder w2 \<and> finalPDF w1 = finalPDF w2)"


section \<open>Generation (createPDF, createPDFsFromImages)\<close>

text \<open>The decimal digits of a number, as a template literal prints it.\<close>

definition digit :: "nat \<Rightarrow> char" where
  "digit d = ''0123456789'' ! d"

function decimal :: "nat \<Rightarrow> string" where
  "decimal n = (if n < 10 then [digit n] else decimal (n div 10) @ [digit (n mod 10)])"
  by pat_completeness auto
termination
  by (relation "measure id") auto

declare decimal.simps [simp del]

text \<open>The name of the file of \<^verbatim>\<open>outputPDF\<close> within the PDF folder.\<close>

definition pdf_name :: "env \<Rightarrow> nat \<Rightarrow> string" where
  "pdf_name env pdfIndex =
     ''IMG_BANK_ACR_'' @ formattedDate env @ ''_output_'' @ decimal pdfIndex @ ''.pdf''"

text \<open>\<^verbatim>\<open>doc.openImage(filePath)\<close>: pdfkit reads the file and decodes it, or throws.\<close>

definition opener_of :: "env \<Rightarrow> world \<Rightarrow> string \<Rightarrow> img option" where
  "opener_of env w file =
     (case readFileSync w (Compressed file) of
        Inl e \<Rightarrow> None
      | Inr b \<Rightarrow> pdfkit_openImage env b)"

text \<open>
  A call of createPDF runs the executor of its promise at once: the document is laid
  out and ended before createPDF returns. What is left for later is the stream: when
  it has written the bytes to \<^verbatim>\<open>outputPDF\<close> its \<^verbatim>\<open>finish\<close> event resolves the promise
  with that path. The record is the pending promise.
\<close>

record task =
  outputPDF :: path
  piped :: bytes
  lines :: "event list"

definition createPDF :: "env \<Rightarrow> world \<Rightarrow> string list \<Rightarrow> nat \<Rightarrow> task" where
  "createPDF env w images pdfIndex =
     (let s = createPDF_layout (opener_of env w) images
      in \<lparr>outputPDF = Pdf (pdf_name env pdfIndex),
          piped = pdfkit_end env (doc s),
          lines = console s\<rparr>)"

text \<open>
  The stream of task \<open>k\<close> finishes: its file is written. A stream that cannot write
  emits an error event, which no listener takes: the process ends there.
\<close>

definition finish :: "task list \<Rightarrow> nat \<Rightarrow> world \<Rightarrow> (error + unit) \<times> world" where
  "finish tasks k w =
     (if k < length tasks
      then (case writeFileSync w (outputPDF (tasks ! k)) (piped (tasks ! k)) of
              Inl e \<Rightarrow> (Inl Uncaught, w)
            | Inr w' \<Rightarrow> (Inr (), w'))
      else (Inr (), w))"

text \<open>
  \<^verbatim>\<open>Promise.all\<close> as ECMAScript defines it: the promise at position \<open>k\<close> stores its
  value in slot \<open>k\<close> when it resolves, and the result is the list of the slots once
  every slot is filled. \<open>sched\<close> is the order in which the promises resolve.
\<close>

definition promise_all :: "'a list \<Rightarrow> nat list \<Rightarrow> 'a list option" where
  "promise_all vals sched =
     (let slots = fold (\<lambda>k sl. if k < length sl then sl[k := Some (vals ! k)] else sl)
                    sched (replicate (length vals) None)
      in if None \<in> set slots then None else Some (map the slots))"

definition createPDFsFromImages ::
  "env \<Rightarrow> nat list \<Rightarrow> world \<Rightarrow> (error + path list) \<times> world" where
  "createPDFsFromImages env sched w =
     (case readdirSync (compressedFolder w) of
        Inl e \<Rightarrow> (Inl e, w)
      | Inr names \<Rightarrow>
          let files = filter (is_image_name env) names;
              tasks = map (\<lambda>(chunk, pdfIndex). createPDF env w chunk pdfIndex) (chunk_tasks files);
              w1 = w\<lparr>printed := printed w @ concat (map lines tasks)\<rparr>
          in (case for_each (finish tasks) sched w1 of
                (Inl e, w2) \<Rightarrow> (Inl e, w2)
              | (Inr u, w2) \<Rightarrow>
                  (case promise_all (map outputPDF tasks) sched of
                     None \<Rightarrow> (Inl NeverSettled, w2)
                   | Some generatedPDFs \<Rightarrow>
                       (Inr generatedPDFs, log (LogGenerated generatedPDFs) w2))))"

text \<open>
  The number of tasks that createPDFsFromImages starts in a world, and the orders in
  which that many promises can resolve: every task once.
\<close>

definition task_count :: "env \<Rightarrow> world \<Rightarrow> nat" where
  "task_count env w =
     (case readdirSync (compressedFolder w) of
        Inl e \<Rightarrow> 0
      | Inr names \<Rightarrow> length (chunk_tasks (filter (is_image_name env) names)))"

definition completion_order :: "nat \<Rightarrow> nat list \<Rightarrow> bool" where
  "completion_order n sched = (distinct sched \<and> set sched = {0..<n})"

section \<open>Merging (mergePDFs)\<close>

text \<open>
  The loop of mergePDFs; \<open>merged\<close> is the page list of \<^verbatim>\<open>mergedPdf\<close>. \<^verbatim>\<open>copyPages\<close> with
  all the page indices gives the pages of the loaded document in their order, and
  \<^verbatim>\<open>addPage\<close> appends each.
\<close>

fun merge_loop :: "env \<Rightarrow> world \<Rightarrow> path list \<Rightarrow> pdfpage list \<Rightarrow> error + pdfpage list" where
  "merge_loop env w [] merged = Inr merged"
| "merge_loop env w (pdfPath # rest) merged =
     (case readFileSync w pdfPath of
        Inl e \<Rightarrow> Inl e
      | Inr pdfBytes \<Rightarrow>
          (case pdflib_load env pdfBytes of
             None \<Rightarrow> Inl ParseError
           | Some pages \<Rightarrow> merge_loop env w rest (merged @ pages)))"

text \<open>
  \<^verbatim>\<open>mergedPdf.save()\<close>, called without options: pdf-lib's \<^verbatim>\<open>save\<close> has \<^verbatim>\<open>addDefaultPage\<close>
  on by default, so a document without pages is given one blank page before it is
  serialised. \<open>pdflib_save\<close> of the environment is the serialisation of a page list.
\<close>

definition blank_page :: pdfpage where
  "blank_page = []"

definition saved_pages :: "pdfpage list \<Rightarrow> pdfpage list" where
  "saved_pages pages = (if pages = [] then [blank_page] else pages)"

definition PDFDocument_save :: "env \<Rightarrow> pdfpage list \<Rightarrow> bytes" where
  "PDFDocument_save env pages = pdflib_save env (saved_pages pages)"

definition mergePDFs :: "env \<Rightarrow> path list \<Rightarrow> world \<Rightarrow> (error + unit) \<times> world" where
  "mergePDFs env pdfPaths w =
     (case merge_loop env w pdfPaths [] of
        Inl e \<Rightarrow> (Inl e, w)
      | Inr merged \<Rightarrow>
          (case writeFileSync w Final (PDFDocument_save env merged) of
             Inl e \<Rightarrow> (Inl e, w)
           | Inr w' \<Rightarrow> (Inr (), log LogMerged w')))"

text \<open>
  The pages of the document stored at a path, as pdf-lib loads them, and whether there
  is such a document.
\<close>

definition document_pages :: "env \<Rightarrow> world \<Rightarrow> path \<Rightarrow> pdfpage list" where
  "document_pages env w p =
     (case readFileSync w p of
        Inl e \<Rightarrow> []
      | Inr b \<Rightarrow> (case pdflib_load env b of None \<Rightarrow> [] | Some pages \<Rightarrow> pages))"

definition loadable :: "env \<Rightarrow> world \<Rightarrow> path \<Rightarrow> bool" where
  "loadable env w p =
     (case readFileSync w p of
        Inl e \<Rightarrow> False
      | Inr b \<Rightarrow> pdflib_load env b \<noteq> None)"

section \<open>Cleanup (deleteFolder) and the main process\<close>

text \<open>
  \<open>delete_entries listing cur\<close> is the \<^verbatim>\<open>forEach\<close> of deleteFolder over the names that
  \<^verbatim>\<open>readdirSync\<close> gave, \<open>cur\<close> being what the folder holds at that moment: a directory is
  deleted by the recursive call, a file is unlinked. The result is what the folder
  still holds, which \<^verbatim>\<open>rmdirSync\<close> needs to be nothing.
\<close>

fun delete_entries ::
  "(string \<times> node) list \<Rightarrow> (string \<times> node) list \<Rightarrow> error + (string \<times> node) list" where
  "delete_entries [] cur = Inr cur"
| "delete_entries ((name, File b) # rest) cur = delete_entries rest (AList.delete name cur)"
| "delete_entries ((name, Dir sub) # rest) cur =
     (case delete_entries sub sub of
        Inl e \<Rightarrow> Inl e
      | Inr left \<Rightarrow>
          if left = [] then delete_entries rest (AList.delete name cur) else Inl ENOTEMPTY)"

text \<open>deleteFolder on a path: \<open>None\<close> in the result says that the path is gone.\<close>

definition deleteFolder :: "node option \<Rightarrow> error + node option" where
  "deleteFolder folder =
     (case folder of
        None \<Rightarrow> Inr None
      | Some (File b) \<Rightarrow> Inl ENOTDIR
      | Some (Dir es) \<Rightarrow>
          (case delete_entries es es of
             Inl e \<Rightarrow> Inl e
           | Inr left \<Rightarrow> if left = [] then Inr None else Inl ENOTEMPTY))"

text \<open>
  How the main process ended: the stage whose throw ended it, if any. An error that was
  thrown reaches the \<^verbatim>\<open>catch\<close> of the main process and is printed; \<open>Uncaught\<close> and
  \<open>NeverSettled\<close> do not reach it: the \<^verbatim>\<open>await\<close> never returns.
\<close>

datatype status =
    Succeeded
  | NormalizationFailed error
  | GenerationFailed error
  | MergeFailed error
  | CleanupFailed error

definition caught :: "error \<Rightarrow> world \<Rightarrow> world" where
  "caught e w = (if e = Uncaught \<or> e = NeverSettled then w else log (LogFatal e) w)"

definition main :: "env \<Rightarrow> nat list \<Rightarrow> world \<Rightarrow> status \<times> world" where
  "main env sched w0 =
     (case analyzeAndCompressImages env (log LogStart w0) of
        (Inl e, w1) \<Rightarrow> (NormalizationFailed e, caught e w1)
      | (Inr u, w1) \<Rightarrow>
          (case createPDFsFromImages env sched w1 of
             (Inl e, w2) \<Rightarrow> (GenerationFailed e, caught e w2)
           | (Inr generatedPDFs, w2) \<Rightarrow>
               (case mergePDFs env generatedPDFs w2 of
                  (Inl e, w3) \<Rightarrow> (MergeFailed e, caught e w3)
                | (Inr u, w3) \<Rightarrow>
                    (case deleteFolder (compressedFolder w3) of
                       Inl e \<Rightarrow> (CleanupFailed e, caught e w3)
                     | Inr c \<Rightarrow>
                         (case deleteFolder (pdfFolder w3) of
                            Inl e \<Rightarrow> (CleanupFailed e, caught e (w3\<lparr>compressedFolder := c\<rparr>))
                          | Inr p \<Rightarrow>
                              (Succeeded,
                               log LogDone (w3\<lparr>compressedFolder := c, pdfFolder := p\<rparr>)))))))"

section \<open>A concrete environment for runs\<close>

text \<open>
  Stand-ins for the libraries: an empty file is not an image; resizing fails on a file
  whose first byte is 0 and otherwise gives two bytes, the width and the quality;
  pdfkit writes a document as one byte, the number of its addPage calls; pdf-lib reads an empty
  file as no document and any other file as one page for each byte, a blank page for 0
  and otherwise a page of the size that the byte says, and it saves a page as the byte
  of its size, a page of any other kind as 0; the extension is the last four
  characters.
\<close>

definition demo_env :: env where
  "demo_env =
     \<lparr>sharp_metadata = (\<lambda>b. if b = [] then None else Some demo_img),
      sharp_resize_jpeg = (\<lambda>b w q. if hd b = 0 then None else Some [w, q]),
      pdfkit_openImage = (\<lambda>b. if b = [] then None else Some demo_img),
      pdfkit_end = (\<lambda>d. [addPage_calls d]),
      pdflib_load = (\<lambda>b. if b = [] then None
                         else Some (map (\<lambda>n. if n = 0 then [] else [AddPage (int n) (int n)]) b)),
      pdflib_save = map (\<lambda>page. case page of [AddPage w h] \<Rightarrow> nat w | _ \<Rightarrow> 0),
      extname = (\<lambda>name. drop (length name - 4) name),
      toLowerCase = (\<lambda>name. name),
      formattedDate = ''2024-01-01''\<rparr>"

text \<open>A world with the given input folder and nothing else.\<close>

definition demo_world :: "(string \<times> node) list \<Rightarrow> world" where
  "demo_world files =
     \<lparr>inputFolder = Some (Dir files), compressedFolder = None, pdfFolder = None,
      finalPDF = None, printed = []\<rparr>"

text \<open>A working area that holds sixteen images, 0.jpg to 15.jpg: two chunks.\<close>

definition sixteen_images :: "(string \<times> node) list" where
  "sixteen_images = map (\<lambda>n. (decimal n @ ''.jpg'', File [7])) [0 ..< 16]"

section \<open>Properties of the chunking loop\<close>

lemma ceil_step: "0 < n \<Longrightarrow> Suc ((n - 15 + 14) div 15) = (n + 14) div (15::nat)"
proof (cases "15 \<le> n")
  case True
  then obtain m where m: "n = m + 15" by (metis le_add_diff_inverse2)
  show ?thesis unfolding m by simp
next
  case False
  assume "0 < n"
  with False have "n - 15 = 0" and "15 \<le> n + 14" and "n + 14 < 30" by simp_all
  then have "(n + 14) div 15 = 1"
    by (simp add: div_nat_eqI)
  then show ?thesis using \<open>n - 15 = 0\<close> by simp
qed

lemma chunk_loop_length:
  "length (chunk_loop files i) = (length files - i + 14) div 15"
proof (induction files i rule: chunk_loop.induct)
  case (1 files i)
  show ?case
  proof (cases "i < length files")
    case True
    then have "length (chunk_loop files i) = Suc ((length files - (i + 15) + 14) div 15)"
      using "1.IH" by (subst chunk_loop.simps) (simp add: IMAGES_PER_FILE_def)
    also have "\<dots> = (length files - i + 14) div 15"
      using True ceil_step [of "length files - i"] by simp
    finally show ?thesis .
  next
    case False
    then show ?thesis by (subst chunk_loop.simps) simp
  qed
qed

lemma chunk_loop_concat:
  "concat (map fst (chunk_loop files i)) = drop i files"
proof (induction files i rule: chunk_loop.induct)
  case (1 files i)
  show ?case
  proof (cases "i < length files")
    case True
    have "concat (map fst (chunk_loop files i))
            = take 15 (drop i files) @ drop (i + 15) files"
      using True "1.IH"
      by (subst chunk_loop.simps) (simp add: IMAGES_PER_FILE_def slice_def)
    also have "\<dots> = drop i files"
      by (metis add.commute append_take_drop_id drop_drop)
    finally show ?thesis .
  next
    case False
    then show ?thesis by (subst chunk_loop.simps) simp
  qed
qed

lemma chunk_loop_nth:
  "k < length (chunk_loop files i) \<Longrightarrow>
     chunk_loop files i ! k
       = (slice files (i + 15 * k) (i + 15 * k + 15), (i + 15 * k) div 15 + 1)"
proof (induction files i arbitrary: k rule: chunk_loop.induct)
  case (1 files i)
  have lt: "i < length files"
  proof (rule ccontr)
    assume "\<not> i < length files"
    then have "chunk_loop files i = []" by (subst chunk_loop.simps) simp
    with "1.prems" show False by simp
  qed
  have unfold: "chunk_loop files i
                  = (slice files i (i + 15), i div 15 + 1) # chunk_loop files (i + 15)"
    using lt by (subst chunk_loop.simps) (simp add: IMAGES_PER_FILE_def)
  show ?case
  proof (cases k)
    case 0
    then show ?thesis by (simp add: unfold)
  next
    case (Suc j)
    then have "j < length (chunk_loop files (i + 15))"
      using "1.prems" unfold by simp
    then have "chunk_loop files (i + 15) ! j
                 = (slice files (i + 15 + 15 * j) (i + 15 + 15 * j + 15),
                    (i + 15 + 15 * j) div 15 + 1)"
      using "1.IH" [OF lt] by (simp add: IMAGES_PER_FILE_def)
    then show ?thesis
      using Suc by (simp add: unfold add.assoc add.left_commute)
  qed
qed

lemma ceiling_div_15: "\<lceil>real n / 15\<rceil> = int ((n + 14) div 15)"
proof -
  have "\<lceil>real n / 15\<rceil> = - \<lfloor>real_of_int (- int n) / real_of_int 15\<rfloor>"
    by (simp add: ceiling_def)
  also have "\<dots> = - ((- int n) div 15)"
    by (simp only: floor_divide_of_int_eq)
  also have "\<dots> = int ((n + 14) div 15)"
    by (simp add: zdiv_int)
  finally show ?thesis .
qed

text \<open>
  C1. For every list of N file names the chunking loop gives exactly ceil(N / 15)
  chunks; every chunk but the last holds exactly 15 names; the chunks, taken in the
  order of their sequence indices 1, 2, ..., concatenate to the input list itself, so
  nothing is duplicated and nothing is left out.
\<close>

theorem chunker_correct:
  "int (length (chunk_tasks files)) = \<lceil>real (length files) / 15\<rceil>
   \<and> (\<forall>k. Suc k < length (chunk_tasks files)
          \<longrightarrow> length (fst (chunk_tasks files ! k)) = 15)
   \<and> map snd (chunk_tasks files) = [1 ..< Suc (length (chunk_tasks files))]
   \<and> concat (map fst (chunk_tasks files)) = files"
proof -
  let ?cs = "chunk_tasks files"
  have len: "length ?cs = (length files + 14) div 15"
    by (simp add: chunk_tasks_def chunk_loop_length)
  have nth: "?cs ! k = (slice files (15 * k) (15 * k + 15), k + 1)" if "k < length ?cs" for k
    using chunk_loop_nth [of k files 0] that by (simp add: chunk_tasks_def)
  have full: "length (fst (?cs ! k)) = 15" if "Suc k < length ?cs" for k
  proof -
    have "15 * k + 15 \<le> length files"
      using that len by arith
    then show ?thesis
      using nth [of k] that by (simp add: slice_def)
  qed
  have idx: "map snd ?cs = [1 ..< Suc (length ?cs)]"
    by (rule nth_equalityI) (simp_all add: nth nth_upt del: upt_Suc)
  have cat: "concat (map fst ?cs) = files"
    by (simp add: chunk_tasks_def chunk_loop_concat)
  show ?thesis
    using len full idx cat by (simp add: ceiling_div_15 del: upt_Suc)
qed

theorem chunker_correct_witness:
  "length (chunk_tasks [1 ..< 33 :: nat]) = 3
   \<and> length (fst (chunk_tasks [1 ..< 33 :: nat] ! 0)) = 15
   \<and> length (fst (chunk_tasks [1 ..< 33 :: nat] ! 1)) = 15
   \<and> map snd (chunk_tasks [1 ..< 33 :: nat]) = [1, 2, 3]
   \<and> concat (map fst (chunk_tasks [1 ..< 33 :: nat])) = [1 ..< 33]"
proof -
  let ?xs = "[1 ..< 33 :: nat]"
  note c = chunker_correct [of ?xs]
  have len: "length (chunk_tasks ?xs) = 3"
    using c by (simp del: upt_rec_numeral)
  have k0: "length (fst (chunk_tasks ?xs ! 0)) = 15"
    using c len by (simp del: upt_rec_numeral)
  have k1: "length (fst (chunk_tasks ?xs ! 1)) = 15"
    using c len by (simp del: upt_rec_numeral)
  have "[1 ..< Suc 3] = [1, 2, 3 :: nat]"
    by (simp add: upt_rec)
  then have idx: "map snd (chunk_tasks ?xs) = [1, 2, 3]"
    using c len by (simp del: upt_rec_numeral upt_Suc)
  show ?thesis
    using len k0 k1 idx c by (simp del: upt_rec_numeral upt_Suc)
qed

section \<open>Properties of the layout\<close>

lemma cell_next:
  assumes "Suc i mod 15 \<noteq> 0"
  shows "cell_x (Suc i) = (if cell_x i + 160 + 150 > 600 - 25 then 25 else cell_x i + 160)"
    and "cell_y (Suc i) = (if cell_x i + 160 + 150 > 600 - 25 then cell_y i + 130 else cell_y i)"
proof -
  have m: "Suc i mod 15 = Suc (i mod 15)"
    using assms by (simp add: mod_Suc split: if_splits)
  have c: "i mod 15 mod 3 = 0 \<or> i mod 15 mod 3 = 1 \<or> i mod 15 mod 3 = 2"
    by arith
  show "cell_x (Suc i) = (if cell_x i + 160 + 150 > 600 - 25 then 25 else cell_x i + 160)"
    using c unfolding cell_x_def m by (auto simp: mod_Suc)
  show "cell_y (Suc i) = (if cell_x i + 160 + 150 > 600 - 25 then cell_y i + 130 else cell_y i)"
    using c unfolding cell_x_def cell_y_def m by (auto simp: div_Suc mod_Suc)
qed

lemma cell_start: "i mod 15 = 0 \<Longrightarrow> cell_x i = 25 \<and> cell_y i = 25"
  by (simp add: cell_x_def cell_y_def)

lemma has_page_simps:
  "has_page [] = False"
  "has_page (c # d) = (is_AddPage c \<or> has_page d)"
  "has_page (d @ e) = (has_page d \<or> has_page e)"
  by (simp_all add: has_page_def)

lemma place_fail_open:
  "opener file = None \<Longrightarrow>
     place opener file index s = s\<lparr>console := console s @ [LogAddError (Compressed file)]\<rparr>"
  by (simp add: place_def)

lemma place_new_page:
  assumes "opener file = Some im" and "index mod 15 = 0"
  shows "place opener file index s =
           s\<lparr>doc := doc s @ [AddPage 600 800, Image (Compressed file) 25 25 im, Text file 25 25 im],
             cursor_x := 185, cursor_y := 25\<rparr>"
  using assms
  by (simp add: place_def doc_image_def doc_text_def doc_addPage_def has_page_simps
        geometry_defs Let_def)

lemma place_same_page:
  assumes "opener file = Some im" and "index mod 15 \<noteq> 0" and "has_page (doc s)"
  shows "place opener file index s =
           (if cursor_x s + 160 + 150 > 600 - 25
            then s\<lparr>doc := doc s @ [Image (Compressed file) (cursor_x s) (cursor_y s) im,
                                   Text file (cursor_x s) (cursor_y s) im],
                   cursor_x := 25, cursor_y := cursor_y s + 130\<rparr>
            else s\<lparr>doc := doc s @ [Image (Compressed file) (cursor_x s) (cursor_y s) im,
                                   Text file (cursor_x s) (cursor_y s) im],
                   cursor_x := cursor_x s + 160\<rparr>)"
  using assms
  by (simp add: place_def doc_image_def doc_text_def doc_addPage_def has_page_simps
        geometry_defs Let_def)

text \<open>
  C5. After an image is placed (it opens, and the document has a page to draw on), the
  x cursor has advanced by the cell width 150 plus the spacing 10; when the next cell's
  right edge, x + 150, would pass the page width 600 minus the margin 25, x is back at
  the left margin 25 and y has advanced by 100 + 10 + 20. Here \<open>x0\<close>, \<open>y0\<close> is the
  cursor at which the image is drawn: the margins when the index starts a page, the
  cursor of the state otherwise.
\<close>

theorem cursor_advance_and_wrap:
  assumes "opener file = Some im"
    and "index mod 15 = 0 \<or> has_page (doc s)"
  shows "let x0 = (if index mod 15 = 0 then 25 else cursor_x s);
             y0 = (if index mod 15 = 0 then 25 else cursor_y s);
             s' = place opener file index s
         in doc s' = (if index mod 15 = 0 then doc s @ [AddPage 600 800] else doc s)
                       @ [Image (Compressed file) x0 y0 im, Text file x0 y0 im]
            \<and> (if x0 + (150 + 10) + 150 > 600 - 25
                then cursor_x s' = 25 \<and> cursor_y s' = y0 + (100 + 10 + 20)
                else cursor_x s' = x0 + (150 + 10) \<and> cursor_y s' = y0)"
proof (cases "index mod 15 = 0")
  case True
  then show ?thesis
    using place_new_page [of opener "file" im index s] assms(1) by simp
next
  case False
  with assms(2) have hp: "has_page (doc s)" by simp
  show ?thesis
    using place_same_page [of opener "file" im index s] assms(1) False hp by (simp add: Let_def)
qed

theorem cursor_advance_and_wrap_witness:
  "place opener_all ''c.jpg'' 2
     \<lparr>doc = [AddPage 600 800], cursor_x = 345, cursor_y = 25, console = []\<rparr>
   = \<lparr>doc = [AddPage 600 800, Image (Compressed ''c.jpg'') 345 25 demo_img, Text ''c.jpg'' 345 25 demo_img],
      cursor_x = 25, cursor_y = 155, console = []\<rparr>"
proof -
  let ?s = "\<lparr>doc = [AddPage 600 800], cursor_x = 345, cursor_y = 25, console = []\<rparr>"
  have o: "opener_all ''c.jpg'' = Some demo_img"
    by (simp add: opener_all_def)
  have p: "(2::nat) mod 15 = 0 \<or> has_page (doc ?s)"
    by (simp add: has_page_def)
  have c: "console (place opener_all ''c.jpg'' 2 ?s) = []"
    by (simp add: place_def opener_all_def doc_image_def doc_text_def has_page_def
          geometry_defs Let_def)
  show ?thesis
    using cursor_advance_and_wrap [of opener_all "''c.jpg''" demo_img 2 ?s] o p c
    by (cases "place opener_all ''c.jpg'' 2 ?s") (simp add: Let_def)
qed

lemma forEach_place_trace:
  assumes "\<forall>f \<in> set images. opener f \<noteq> None"
    and "i mod 15 \<noteq> 0 \<Longrightarrow> has_page (doc s) \<and> cursor_x s = cell_x i \<and> cursor_y s = cell_y i"
  shows "doc (forEach_place opener images i s) = doc s @ expected_calls opener images i"
  using assms
proof (induction images arbitrary: i s)
  case Nil
  then show ?case by simp
next
  case (Cons f rest)
  from Cons.prems(1) obtain im where im: "opener f = Some im" by auto
  let ?s' = "place opener f i s"
  have step: "doc ?s' = doc s @ (if i mod 15 = 0 then [AddPage 600 800] else [])
                          @ [Image (Compressed f) (cell_x i) (cell_y i) im, Text f (cell_x i) (cell_y i) im]
              \<and> has_page (doc ?s')
              \<and> cursor_x ?s' = (if cell_x i + 160 + 150 > 600 - 25 then 25 else cell_x i + 160)
              \<and> cursor_y ?s' = (if cell_x i + 160 + 150 > 600 - 25 then cell_y i + 130 else cell_y i)"
  proof (cases "i mod 15 = 0")
    case True
    then show ?thesis
      using place_new_page [of opener f im i s] im cell_start [OF True]
      by (simp add: has_page_simps)
  next
    case False
    with Cons.prems(2) have inv: "has_page (doc s)" "cursor_x s = cell_x i" "cursor_y s = cell_y i"
      by simp_all
    show ?thesis
      using place_same_page [of opener f im i s] im False inv
      by (simp add: has_page_simps)
  qed
  have inv': "has_page (doc ?s') \<and> cursor_x ?s' = cell_x (Suc i) \<and> cursor_y ?s' = cell_y (Suc i)"
    if "Suc i mod 15 \<noteq> 0"
  proof -
    from step have "has_page (doc ?s')"
      and "cursor_x ?s' = (if cell_x i + 160 + 150 > 600 - 25 then 25 else cell_x i + 160)"
      and "cursor_y ?s' = (if cell_x i + 160 + 150 > 600 - 25 then cell_y i + 130 else cell_y i)"
      by blast+
    then show ?thesis
      using cell_next [OF that] by simp
  qed
  have "doc (forEach_place opener rest (Suc i) ?s') = doc ?s' @ expected_calls opener rest (Suc i)"
    using Cons.IH [of "Suc i" ?s'] Cons.prems(1) inv' by simp
  then show ?case
    using step im by simp
qed

lemma addPage_calls_simps:
  "addPage_calls [] = 0"
  "addPage_calls (c # d) = (if is_AddPage c then 1 else 0) + addPage_calls d"
  "addPage_calls (d @ e) = addPage_calls d + addPage_calls e"
  by (simp_all add: addPage_calls_def)

lemma ceil15_eq: "(i + 14) div 15 = i div 15 + (if i mod 15 = 0 then 0 else (1::nat))"
proof -
  have r: "i mod 15 < 15" by simp
  have "(i + 14) div 15 = i div 15 + 14 div 15 + (i mod 15 + 14 mod 15) div 15"
    by (rule div_add1_eq)
  then have "(i + 14) div 15 = i div 15 + (i mod 15 + 14) div 15"
    by simp
  moreover have "(i mod 15 + 14) div 15 = (if i mod 15 = 0 then 0 else 1)"
  proof (cases "i mod 15 = 0")
    case True
    then show ?thesis by simp
  next
    case False
    then have "15 \<le> i mod 15 + 14" and "i mod 15 + 14 < 30" using r by simp_all
    then have "(i mod 15 + 14) div 15 = 1" by (simp add: div_nat_eqI)
    with False show ?thesis by simp
  qed
  ultimately show ?thesis by simp
qed

lemma ceil15_Suc: "(Suc i + 14) div 15 = (i + 14) div 15 + (if i mod 15 = 0 then 1 else 0)"
proof -
  have "Suc i + 14 = i + 15" by simp
  then have "(Suc i + 14) div 15 = Suc (i div 15)"
    by (simp only: div_add_self2)
  then show ?thesis
    by (simp only: ceil15_eq) simp
qed

lemma addPage_calls_expected:
  "addPage_calls (expected_calls opener images i) + (i + 14) div 15
     = (i + length images + 14) div 15"
proof (induction images arbitrary: i)
  case Nil
  then show ?case by (simp add: addPage_calls_simps)
next
  case (Cons f rest)
  have "addPage_calls (expected_calls opener (f # rest) i) + (i + 14) div 15
          = addPage_calls (expected_calls opener rest (Suc i)) + (Suc i + 14) div 15"
    by (simp only: ceil15_Suc) (simp add: addPage_calls_simps)
  also have "\<dots> = (Suc i + length rest + 14) div 15"
    by (rule Cons.IH)
  finally show ?case by simp
qed

lemma chunk_loop_sizes:
  "c \<in> set (chunk_loop files i) \<Longrightarrow>
     0 < length (fst c) \<and> length (fst c) \<le> 15 \<and> set (fst c) \<subseteq> set files"
proof (induction files i rule: chunk_loop.induct)
  case (1 files i)
  have lt: "i < length files"
  proof (rule ccontr)
    assume "\<not> i < length files"
    then have "chunk_loop files i = []" by (subst chunk_loop.simps) simp
    with "1.prems" show False by simp
  qed
  from "1.prems" have "c = (slice files i (i + 15), i div 15 + 1)
                       \<or> c \<in> set (chunk_loop files (i + 15))"
    using lt by (subst (asm) chunk_loop.simps) (simp add: IMAGES_PER_FILE_def)
  then show ?case
  proof
    assume "c = (slice files i (i + 15), i div 15 + 1)"
    then show ?thesis
      using lt set_take_subset [of 15 "drop i files"] set_drop_subset [of i files]
      by (auto simp: slice_def)
  next
    assume "c \<in> set (chunk_loop files (i + 15))"
    then show ?thesis
      using "1.IH" [OF lt] by (simp add: IMAGES_PER_FILE_def)
  qed
qed

lemma layout_page_count:
  assumes "\<forall>f \<in> set images. opener f \<noteq> None"
  shows "doc (createPDF_layout opener images) = expected_calls opener images 0"
    and "addPage_calls (doc (createPDF_layout opener images)) = (length images + 14) div 15"
proof -
  show d: "doc (createPDF_layout opener images) = expected_calls opener images 0"
    using forEach_place_trace [OF assms, of 0] by (simp add: createPDF_layout_def)
  show "addPage_calls (doc (createPDF_layout opener images)) = (length images + 14) div 15"
    using addPage_calls_expected [of opener images 0] by (simp add: d)
qed

lemma one_page: "0 < n \<Longrightarrow> n \<le> 15 \<Longrightarrow> (n + 14) div 15 = (1::nat)"
  by (simp add: div_nat_eqI)

lemma no_auto_pages:
  "(\<forall>name x y im. Text name x y im \<in> set d \<longrightarrow> text_pages name x y im = 0) \<Longrightarrow>
     sum_list (map (auto_pages text_pages) d) = 0"
proof (induction d)
  case Nil
  then show ?case by simp
next
  case (Cons c d)
  then show ?case by (cases c) auto
qed

lemma page_count_no_auto:
  "(\<forall>name x y im. Text name x y im \<in> set d \<longrightarrow> text_pages name x y im = 0) \<Longrightarrow>
     page_count text_pages d = addPage_calls d"
  by (simp add: page_count_def no_auto_pages)

text \<open>
  C4, as the code has it. When every image of the list opens, the calls made on the
  writer are exactly \<open>expected_calls\<close>: index.js adds a page of 600 by 800, and the cursor
  is back at the margins (25, 25), before the images whose index is a multiple of 15
  and before no other; it adds ceil(n / 15) pages. For a list of 1 to 15 images, and so
  for every chunk that the chunking loop cuts, index.js adds one page, and the
  document has exactly one page when no caption makes pdfkit's \<^verbatim>\<open>text\<close> continue on a
  page of its own.
\<close>

theorem page_break_rule:
  assumes "\<forall>f \<in> set images. opener f \<noteq> None"
  shows "doc (createPDF_layout opener images) = expected_calls opener images 0
       \<and> int (addPage_calls (doc (createPDF_layout opener images)))
           = \<lceil>real (length images) / 15\<rceil>
       \<and> (0 < length images \<and> length images \<le> 15 \<longrightarrow>
            addPage_calls (doc (createPDF_layout opener images)) = 1
            \<and> ((\<forall>name x y im. Text name x y im \<in> set (doc (createPDF_layout opener images))
                                \<longrightarrow> text_pages name x y im = 0)
                 \<longrightarrow> page_count text_pages (doc (createPDF_layout opener images)) = 1))
       \<and> (\<forall>c \<in> set (chunk_tasks images).
            doc (createPDF_layout opener (fst c)) = expected_calls opener (fst c) 0
            \<and> addPage_calls (doc (createPDF_layout opener (fst c))) = 1
            \<and> ((\<forall>name x y im. Text name x y im \<in> set (doc (createPDF_layout opener (fst c)))
                                \<longrightarrow> text_pages name x y im = 0)
                 \<longrightarrow> page_count text_pages (doc (createPDF_layout opener (fst c))) = 1))"
proof -
  have fits: "page_count text_pages d = 1"
    if "addPage_calls d = 1"
      and "\<forall>name x y im. Text name x y im \<in> set d \<longrightarrow> text_pages name x y im = 0" for d
    using page_count_no_auto [OF that(2)] that(1) by simp
  have chunk: "doc (createPDF_layout opener (fst c)) = expected_calls opener (fst c) 0
               \<and> addPage_calls (doc (createPDF_layout opener (fst c))) = 1
               \<and> ((\<forall>name x y im. Text name x y im \<in> set (doc (createPDF_layout opener (fst c)))
                                \<longrightarrow> text_pages name x y im = 0)
                 \<longrightarrow> page_count text_pages (doc (createPDF_layout opener (fst c))) = 1)"
    if "c \<in> set (chunk_tasks images)" for c
  proof -
    from that have sz: "0 < length (fst c)" "length (fst c) \<le> 15" "set (fst c) \<subseteq> set images"
      using chunk_loop_sizes [of c images 0] by (simp_all add: chunk_tasks_def)
    then have ok: "\<forall>f \<in> set (fst c). opener f \<noteq> None"
      using assms by blast
    have one: "addPage_calls (doc (createPDF_layout opener (fst c))) = 1"
      using layout_page_count(2) [OF ok] one_page [OF sz(1) sz(2)] by simp
    show ?thesis
      using layout_page_count(1) [OF ok] one fits [OF one] by blast
  qed
  have trace: "doc (createPDF_layout opener images) = expected_calls opener images 0"
    by (rule layout_page_count(1) [OF assms])
  have count: "addPage_calls (doc (createPDF_layout opener images)) = (length images + 14) div 15"
    by (rule layout_page_count(2) [OF assms])
  have ceil: "int (addPage_calls (doc (createPDF_layout opener images)))
                = \<lceil>real (length images) / 15\<rceil>"
    by (simp only: count ceiling_div_15)
  have one: "addPage_calls (doc (createPDF_layout opener images)) = 1"
    if "0 < length images \<and> length images \<le> 15"
    using one_page [of "length images"] that by (simp only: count)
  have small: "0 < length images \<and> length images \<le> 15 \<longrightarrow>
            addPage_calls (doc (createPDF_layout opener images)) = 1
            \<and> ((\<forall>name x y im. Text name x y im \<in> set (doc (createPDF_layout opener images))
                                \<longrightarrow> text_pages name x y im = 0)
                 \<longrightarrow> page_count text_pages (doc (createPDF_layout opener images)) = 1)"
    using one fits by blast
  show ?thesis
    using trace ceil small chunk by blast
qed

theorem page_break_rule_witness:
  "doc (createPDF_layout opener_all [''a.jpg'', ''b.jpg''])
     = [AddPage 600 800,
        Image (Compressed ''a.jpg'') 25 25 demo_img, Text ''a.jpg'' 25 25 demo_img,
        Image (Compressed ''b.jpg'') 185 25 demo_img, Text ''b.jpg'' 185 25 demo_img]
   \<and> addPage_calls (doc (createPDF_layout opener_all [''a.jpg'', ''b.jpg''])) = 1
   \<and> page_count demo_text_pages (doc (createPDF_layout opener_all [''a.jpg'', ''b.jpg''])) = 1"
proof -
  let ?d = "doc (createPDF_layout opener_all [''a.jpg'', ''b.jpg''])"
  have ok: "\<forall>f \<in> set [''a.jpg'', ''b.jpg'']. opener_all f \<noteq> None"
    by (simp add: opener_all_def)
  have e: "expected_calls opener_all [''a.jpg'', ''b.jpg''] 0
          = [AddPage 600 800,
             Image (Compressed ''a.jpg'') 25 25 demo_img, Text ''a.jpg'' 25 25 demo_img,
             Image (Compressed ''b.jpg'') 185 25 demo_img, Text ''b.jpg'' 185 25 demo_img]"
    by (simp add: opener_all_def cell_x_def cell_y_def)
  note t = page_break_rule [OF ok, of demo_text_pages]
  from t e have d: "?d = [AddPage 600 800,
             Image (Compressed ''a.jpg'') 25 25 demo_img, Text ''a.jpg'' 25 25 demo_img,
             Image (Compressed ''b.jpg'') 185 25 demo_img, Text ''b.jpg'' 185 25 demo_img]"
    by simp
  have fit: "\<forall>name x y im. Text name x y im \<in> set ?d \<longrightarrow> demo_text_pages name x y im = 0"
    by (auto simp: d demo_text_pages_def)
  have len: "0 < length [''a.jpg'', ''b.jpg''] \<and> length [''a.jpg'', ''b.jpg''] \<le> 15"
    by simp
  from t len fit have "addPage_calls ?d = 1 \<and> page_count demo_text_pages ?d = 1"
    by blast
  with d show ?thesis by simp
qed

text \<open>
  The claim C4 as the specification words it fails in its second half: a chunk of
  thirteen images that all place, the last with a name of 198 characters, gets one page
  from index.js and a second one from the caption of the last image, which starts at
  650 and does not fit above 728.
\<close>

lemma thirteen_layout:
  "doc (createPDF_layout opener_all thirteen_names) = expected_calls opener_all thirteen_names 0"
  by (rule layout_page_count(1)) (simp add: opener_all_def)

lemma thirteen_calls:
  "addPage_calls (expected_calls opener_all thirteen_names 0) = 1"
  by (simp add: thirteen_names_def addPage_calls_def)

lemma thirteen_auto:
  "sum_list (map (auto_pages demo_text_pages) (expected_calls opener_all thirteen_names 0)) = 1"
  by (simp add: thirteen_names_def demo_text_pages_def cell_y_def)

theorem page_break_counterexample:
  "length thirteen_names = 13
   \<and> addPage_calls (doc (createPDF_layout opener_all thirteen_names)) = 1
   \<and> page_count demo_text_pages (doc (createPDF_layout opener_all thirteen_names)) = 2"
  by (simp add: thirteen_layout thirteen_calls thirteen_auto page_count_def)
     (simp add: thirteen_names_def)

text \<open>
  C3, as the code has it. When \<^verbatim>\<open>doc.openImage\<close> throws for an image that is not the
  first of a page (its index is not a multiple of 15), on a document that has its
  page, the callback logs the error and changes nothing else: nothing is drawn for the
  image, the cursor keeps its values (it does not advance), and the loop goes on with
  the next image at the next index. When that next image opens and does not start a
  page, it is drawn at the cursor that the failed image found, the cell that the
  failed image would have taken: no gap is left.
\<close>

theorem placement_failure_keeps_cursor:
  assumes "opener name = None" and "index mod 15 \<noteq> 0" and "has_page (doc s)"
  shows "place opener name index s = s\<lparr>console := console s @ [LogAddError (Compressed name)]\<rparr>
       \<and> doc (place opener name index s) = doc s
       \<and> cursor_x (place opener name index s) = cursor_x s
       \<and> cursor_y (place opener name index s) = cursor_y s
       \<and> forEach_place opener (name # rest) index s
           = forEach_place opener rest (Suc index)
               (s\<lparr>console := console s @ [LogAddError (Compressed name)]\<rparr>)
       \<and> (\<forall>following im. opener following = Some im \<and> Suc index mod 15 \<noteq> 0 \<longrightarrow>
             doc (forEach_place opener [name, following] index s)
               = doc s @ [Image (Compressed following) (cursor_x s) (cursor_y s) im,
                          Text following (cursor_x s) (cursor_y s) im])"
proof -
  let ?s' = "s\<lparr>console := console s @ [LogAddError (Compressed name)]\<rparr>"
  have skip: "place opener name index s = ?s'"
    using assms(1) by (rule place_fail_open)
  have after: "doc (forEach_place opener [name, following] index s)
               = doc s @ [Image (Compressed following) (cursor_x s) (cursor_y s) im,
                          Text following (cursor_x s) (cursor_y s) im]"
    if "opener following = Some im" and "Suc index mod 15 \<noteq> 0" for following im
  proof -
    have hp: "has_page (doc ?s')" using assms(3) by simp
    show ?thesis
      using place_same_page [of opener following im "Suc index" ?s'] that hp
      by (simp add: skip)
  qed
  show ?thesis
    using skip after by simp
qed

theorem placement_failure_keeps_cursor_witness:
  "place (opener_except ''b.jpg'') ''b.jpg'' 1
     \<lparr>doc = [AddPage 600 800], cursor_x = 185, cursor_y = 25, console = []\<rparr>
   = \<lparr>doc = [AddPage 600 800], cursor_x = 185, cursor_y = 25,
      console = [LogAddError (Compressed ''b.jpg'')]\<rparr>
   \<and> doc (forEach_place (opener_except ''b.jpg'') [''b.jpg'', ''c.jpg''] 1
            \<lparr>doc = [AddPage 600 800], cursor_x = 185, cursor_y = 25, console = []\<rparr>)
     = [AddPage 600 800, Image (Compressed ''c.jpg'') 185 25 demo_img,
        Text ''c.jpg'' 185 25 demo_img]"
proof -
  let ?s = "\<lparr>doc = [AddPage 600 800], cursor_x = 185, cursor_y = 25, console = []\<rparr>"
  have h: "opener_except ''b.jpg'' ''b.jpg'' = None" "(1::nat) mod 15 \<noteq> 0" "has_page (doc ?s)"
    by (simp_all add: opener_except_def has_page_def)
  have c: "opener_except ''b.jpg'' ''c.jpg'' = Some demo_img \<and> Suc 1 mod 15 \<noteq> 0"
    by (simp add: opener_except_def)
  note t = placement_failure_keeps_cursor [of "opener_except ''b.jpg''" "''b.jpg''" 1 ?s "[]"]
  from t h have "place (opener_except ''b.jpg'') ''b.jpg'' 1 ?s
                   = ?s\<lparr>console := console ?s @ [LogAddError (Compressed ''b.jpg'')]\<rparr>"
    by blast
  moreover from t h c
  have "doc (forEach_place (opener_except ''b.jpg'') [''b.jpg'', ''c.jpg''] 1 ?s)
          = doc ?s @ [Image (Compressed ''c.jpg'') (cursor_x ?s) (cursor_y ?s) demo_img,
                      Text ''c.jpg'' (cursor_x ?s) (cursor_y ?s) demo_img]"
    by blast
  ultimately show ?thesis by simp
qed

text \<open>
  The claim C3 as the specification words it fails: in the chunk a.jpg, b.jpg where
  b.jpg cannot be opened, the cursor ends at (185, 25), the cell that b.jpg would have
  taken, and not at (345, 25), where it ends when b.jpg is placed.
\<close>

theorem placement_failure_counterexample:
  "cursor_x (createPDF_layout (opener_except ''b.jpg'') [''a.jpg'', ''b.jpg'']) = 185
   \<and> cursor_x (createPDF_layout opener_all [''a.jpg'', ''b.jpg'']) = 345
   \<and> cursor_x (createPDF_layout (opener_except ''b.jpg'') [''a.jpg'', ''b.jpg''])
       \<noteq> cursor_x (createPDF_layout opener_all [''a.jpg'', ''b.jpg''])"
  by (simp add: createPDF_layout_def place_def opener_except_def opener_all_def
        doc_image_def doc_text_def doc_addPage_def has_page_def geometry_defs Let_def)

section \<open>Properties of the normalisation\<close>

lemma entry_put_file:
  "put_file folder name b = Inr d \<Longrightarrow>
     entry d n = (if n = name then Some (File b) else entry folder n)"
  by (auto simp: put_file_def entry_def update_conv'
           split: option.splits node.splits)

lemma put_file_is_dir:
  "put_file folder name b = Inr d \<Longrightarrow> (\<exists>es es'. folder = Some (Dir es) \<and> d = Some (Dir es'))"
  by (auto simp: put_file_def split: option.splits node.splits)

lemma writeFileSync_Compressed:
  assumes "writeFileSync w (Compressed g) b = Inr w'"
  shows "inputFolder w' = inputFolder w \<and> pdfFolder w' = pdfFolder w
    \<and> finalPDF w' = finalPDF w \<and> printed w' = printed w
    \<and> entry (compressedFolder w') n
         = (if n = g then Some (File b) else entry (compressedFolder w) n)"
  using assms by (auto split: sum.splits simp: entry_put_file)

lemma log_fields [simp]:
  "inputFolder (log e w) = inputFolder w"
  "compressedFolder (log e w) = compressedFolder w"
  "pdfFolder (log e w) = pdfFolder w"
  "finalPDF (log e w) = finalPDF w"
  "printed (log e w) = printed w @ [e]"
  "lookup (log e w) p = lookup w p"
  "readFileSync (log e w) p = readFileSync w p"
  by (cases p; simp add: log_def readFileSync_def)+

lemma validateImage_cases:
  "validateImage env p w = (None, log (LogInvalidImage p) w)
   \<or> (\<exists>b m. readFileSync w p = Inr b \<and> sharp_metadata env b = Some m
              \<and> validateImage env p w = (Some m, w))"
  by (auto simp: validateImage_def split: sum.splits option.splits)

lemma compressImage_cases:
  "compressImage env ip op w = log (LogCompressError ip) w
   \<or> (\<exists>b out w'. readFileSync w ip = Inr b
          \<and> sharp_resize_jpeg env b TARGET_WIDTH 80 = Some out
          \<and> writeFileSync w op out = Inr w'
          \<and> compressImage env ip op w = log (LogCompressed op) w')"
  by (simp add: compressImage_def split: sum.splits option.splits)

lemma compressImage_frame:
  "inputFolder (compressImage env (Input g) (Compressed g) w) = inputFolder w
   \<and> pdfFolder (compressImage env (Input g) (Compressed g) w) = pdfFolder w
   \<and> finalPDF (compressImage env (Input g) (Compressed g) w) = finalPDF w
   \<and> (n \<noteq> g \<longrightarrow> entry (compressedFolder (compressImage env (Input g) (Compressed g) w)) n
                    = entry (compressedFolder w) n)"
proof -
  from compressImage_cases [of env "Input g" "Compressed g" w]
  show ?thesis
  proof
    assume "compressImage env (Input g) (Compressed g) w = log (LogCompressError (Input g)) w"
    then show ?thesis by simp
  next
    assume "\<exists>b out w'. readFileSync w (Input g) = Inr b
          \<and> sharp_resize_jpeg env b TARGET_WIDTH 80 = Some out
          \<and> writeFileSync w (Compressed g) out = Inr w'
          \<and> compressImage env (Input g) (Compressed g) w = log (LogCompressed (Compressed g)) w'"
    then obtain out w' where wr: "writeFileSync w (Compressed g) out = Inr w'"
      and c: "compressImage env (Input g) (Compressed g) w = log (LogCompressed (Compressed g)) w'"
      by blast
    show ?thesis
      using writeFileSync_Compressed [OF wr, of n] by (simp add: c)
  qed
qed

lemma copyFileSync_frame:
  assumes "copyFileSync w (Input g) (Compressed g) = Inr w'"
  shows "inputFolder w' = inputFolder w \<and> pdfFolder w' = pdfFolder w
         \<and> finalPDF w' = finalPDF w \<and> printed w' = printed w
         \<and> (n \<noteq> g \<longrightarrow> entry (compressedFolder w') n = entry (compressedFolder w) n)"
proof -
  from assms obtain b where wr: "writeFileSync w (Compressed g) b = Inr w'"
    by (auto simp: copyFileSync_def split: sum.splits)
  show ?thesis
    using writeFileSync_Compressed [OF wr, of n] by simp
qed

lemma normalize_file_frame:
  assumes "normalize_file env g w = (r, w')"
  shows "inputFolder w' = inputFolder w \<and> pdfFolder w' = pdfFolder w
         \<and> finalPDF w' = finalPDF w
         \<and> (n \<noteq> g \<longrightarrow> entry (compressedFolder w') n = entry (compressedFolder w) n)"
proof -
  from validateImage_cases [of env "Input g" w]
  show ?thesis
  proof
    assume "validateImage env (Input g) w = (None, log (LogInvalidImage (Input g)) w)"
    with assms show ?thesis
      by (auto simp: normalize_file_def)
  next
    assume "\<exists>b m. readFileSync w (Input g) = Inr b \<and> sharp_metadata env b = Some m
                   \<and> validateImage env (Input g) w = (Some m, w)"
    then obtain b m where b: "readFileSync w (Input g) = Inr b"
      and v: "validateImage env (Input g) w = (Some m, w)" by blast
    show ?thesis
    proof (cases "length b > MAX_IMAGE_SIZE_MB * (1024 * 1024)")
      case True
      with assms b v have "w' = compressImage env (Input g) (Compressed g) (log (LogCompressing g) w)"
        by (auto simp: normalize_file_def)
      then show ?thesis
        using compressImage_frame [of env g "log (LogCompressing g) w" n] by simp
    next
      case False
      show ?thesis
      proof (cases "copyFileSync w (Input g) (Compressed g)")
        case (Inl e)
        with assms b v False show ?thesis by (auto simp: normalize_file_def)
      next
        case (Inr w2)
        with assms b v False have "w' = log (LogCopied g) w2"
          by (auto simp: normalize_file_def)
        then show ?thesis
          using copyFileSync_frame [OF Inr, of n] by simp
      qed
    qed
  qed
qed

lemma normalize_file_invalid:
  "fst (validateImage env (Input f) w) = None \<Longrightarrow>
     normalize_file env f w = (Inr (), log (LogInvalidImage (Input f)) w)"
  using validateImage_cases [of env "Input f" w]
  by (auto simp: normalize_file_def)

lemma same_files_log [simp]:
  "same_files (log e w1) w2 = same_files w1 w2"
  "same_files w1 (log e w2) = same_files w1 w2"
  by (simp_all add: same_files_def)

lemma same_files_refl [simp]: "same_files w w"
  by (simp add: same_files_def)

lemma same_files_read:
  "same_files w1 w2 \<Longrightarrow> readFileSync w1 p = readFileSync w2 p"
  by (cases p) (simp_all add: same_files_def readFileSync_def)

lemma same_files_write:
  assumes "same_files w1 w2"
  shows "(case writeFileSync w1 p b of
            Inl e \<Rightarrow> writeFileSync w2 p b = Inl e
          | Inr w1' \<Rightarrow> (\<exists>w2'. writeFileSync w2 p b = Inr w2' \<and> same_files w1' w2'))"
  using assms
  by (cases p) (auto simp: same_files_def split: sum.splits option.splits node.splits)

lemma same_files_compressImage:
  assumes "same_files w1 w2"
  shows "same_files (compressImage env ip op w1) (compressImage env ip op w2)"
proof -
  have r: "readFileSync w1 ip = readFileSync w2 ip"
    using assms by (rule same_files_read)
  show ?thesis
  proof (cases "readFileSync w2 ip")
    case (Inl e)
    then show ?thesis using r assms by (simp add: compressImage_def)
  next
    case (Inr b)
    show ?thesis
    proof (cases "sharp_resize_jpeg env b TARGET_WIDTH 80")
      case None
      then show ?thesis using r Inr assms by (simp add: compressImage_def)
    next
      case (Some out)
      show ?thesis
        using same_files_write [OF assms, of op out] r Inr Some assms
        by (auto simp: compressImage_def split: sum.splits)
    qed
  qed
qed

lemma same_files_validateImage:
  assumes "same_files w1 w2"
  shows "fst (validateImage env p w1) = fst (validateImage env p w2)
         \<and> same_files (snd (validateImage env p w1)) (snd (validateImage env p w2))"
  using assms same_files_read [OF assms, of p]
  by (simp add: validateImage_def split: sum.splits option.splits)

lemma same_files_normalize_file:
  assumes "same_files w1 w2"
  shows "fst (normalize_file env g w1) = fst (normalize_file env g w2)
         \<and> same_files (snd (normalize_file env g w1)) (snd (normalize_file env g w2))"
proof -
  obtain m1 v1 where v1: "validateImage env (Input g) w1 = (m1, v1)" by (cases "validateImage env (Input g) w1")
  obtain m2 v2 where v2: "validateImage env (Input g) w2 = (m2, v2)" by (cases "validateImage env (Input g) w2")
  from same_files_validateImage [OF assms, of env "Input g"] v1 v2
  have m: "m1 = m2" and sv: "same_files v1 v2" by simp_all
  have r: "readFileSync v1 (Input g) = readFileSync v2 (Input g)"
    using sv by (rule same_files_read)
  show ?thesis
  proof (cases m2)
    case None
    then show ?thesis using m sv v1 v2 by (simp add: normalize_file_def)
  next
    case (Some md)
    show ?thesis
    proof (cases "readFileSync v2 (Input g)")
      case (Inl e)
      then show ?thesis using Some m sv v1 v2 r by (simp add: normalize_file_def)
    next
      case (Inr b)
      show ?thesis
      proof (cases "length b > MAX_IMAGE_SIZE_MB * (1024 * 1024)")
        case True
        have "same_files (compressImage env (Input g) (Compressed g) (log (LogCompressing g) v1))
                         (compressImage env (Input g) (Compressed g) (log (LogCompressing g) v2))"
          by (rule same_files_compressImage) (simp add: sv)
        then show ?thesis using True Inr Some m v1 v2 r by (simp add: normalize_file_def)
      next
        case False
        show ?thesis
          using same_files_write [OF sv, of "Compressed g" b] False Inr Some m v1 v2 r sv
          by (auto simp: normalize_file_def copyFileSync_def split: sum.splits)
      qed
    qed
  qed
qed

lemma same_files_for_each:
  assumes "same_files w1 w2"
  shows "fst (for_each (normalize_file env) files w1) = fst (for_each (normalize_file env) files w2)
         \<and> same_files (snd (for_each (normalize_file env) files w1))
                       (snd (for_each (normalize_file env) files w2))"
  using assms
proof (induction files arbitrary: w1 w2)
  case Nil
  then show ?case by simp
next
  case (Cons g rest)
  obtain r1 u1 where s1: "normalize_file env g w1 = (r1, u1)" by (cases "normalize_file env g w1")
  obtain r2 u2 where s2: "normalize_file env g w2 = (r2, u2)" by (cases "normalize_file env g w2")
  from same_files_normalize_file [OF Cons.prems, of env g] s1 s2
  have r: "r1 = r2" and u: "same_files u1 u2" by simp_all
  show ?case
  proof (cases r2)
    case (Inl e)
    then show ?thesis using r u s1 s2 by simp
  next
    case (Inr x)
    then show ?thesis using r s1 s2 Cons.IH [OF u] by simp
  qed
qed

lemma for_each_append:
  "for_each body (xs @ ys) w =
     (case for_each body xs w of
        (Inl e, w') \<Rightarrow> (Inl e, w')
      | (Inr u, w') \<Rightarrow> for_each body ys w')"
  by (induction xs arbitrary: w) (auto split: prod.splits sum.splits)

lemma validateImage_input_only:
  "inputFolder w' = inputFolder w \<Longrightarrow>
     fst (validateImage env (Input f) w') = fst (validateImage env (Input f) w)"
  by (simp add: validateImage_def readFileSync_def split: sum.splits option.splits node.splits)

lemma for_each_normalize_frame:
  "inputFolder (snd (for_each (normalize_file env) files w)) = inputFolder w
   \<and> pdfFolder (snd (for_each (normalize_file env) files w)) = pdfFolder w
   \<and> finalPDF (snd (for_each (normalize_file env) files w)) = finalPDF w
   \<and> (n \<notin> set files \<longrightarrow>
         entry (compressedFolder (snd (for_each (normalize_file env) files w))) n
           = entry (compressedFolder w) n)"
proof (induction files arbitrary: w)
  case Nil
  then show ?case by simp
next
  case (Cons g rest)
  obtain r u where s: "normalize_file env g w = (r, u)" by (cases "normalize_file env g w")
  note fr = normalize_file_frame [OF s, of n]
  show ?case
  proof (cases r)
    case (Inl e)
    then show ?thesis using s fr by simp
  next
    case (Inr x)
    then show ?thesis using s fr Cons.IH [of u] by simp
  qed
qed

lemma readFileSync_input_only:
  "inputFolder w' = inputFolder w \<Longrightarrow> readFileSync w' (Input f) = readFileSync w (Input f)"
  by (simp add: readFileSync_def)

text \<open>
  A file whose step only prints: whatever the folders hold besides, the loop body
  returns normally with the lines \<open>l\<close> added to the console and nothing else changed.
\<close>

lemma skip_keeps_entry:
  assumes "\<And>u. inputFolder u = inputFolder w \<Longrightarrow>
             normalize_file env f u = (Inr (), u\<lparr>printed := printed u @ l\<rparr>)"
  shows "entry (compressedFolder (snd (for_each (normalize_file env) files w))) f
           = entry (compressedFolder w) f"
  using assms
proof (induction files arbitrary: w)
  case Nil
  then show ?case by simp
next
  case (Cons g rest)
  obtain r u where s: "normalize_file env g w = (r, u)" by (cases "normalize_file env g w")
  have keep: "entry (compressedFolder u) f = entry (compressedFolder w) f"
  proof (cases "g = f")
    case True
    then show ?thesis using Cons.prems [of w] s by auto
  next
    case False
    then show ?thesis using normalize_file_frame [OF s, of f] by simp
  qed
  have i: "inputFolder u = inputFolder w"
    using normalize_file_frame [OF s, of f] by simp
  have next_skip: "normalize_file env f v = (Inr (), v\<lparr>printed := printed v @ l\<rparr>)"
    if "inputFolder v = inputFolder u" for v
    using Cons.prems [of v] that i by simp
  show ?case
  proof (cases r)
    case (Inl e)
    then show ?thesis using s keep by simp
  next
    case (Inr x)
    then show ?thesis using s keep Cons.IH [of u, OF next_skip] by simp
  qed
qed

lemma place_draws:
  "Image p x y im \<in> set (doc (place opener f i s)) \<Longrightarrow>
     Image p x y im \<in> set (doc s) \<or> p = Compressed f"
  by (auto simp: place_def doc_image_def doc_text_def doc_addPage_def Let_def
           split: option.splits if_splits)

lemma forEach_place_draws:
  "Image p x y im \<in> set (doc (forEach_place opener images i s)) \<Longrightarrow>
     Image p x y im \<in> set (doc s) \<or> p \<in> Compressed ` set images"
proof (induction images arbitrary: i s)
  case Nil
  then show ?case by simp
next
  case (Cons f rest)
  from Cons.prems have "Image p x y im \<in> set (doc (forEach_place opener rest (Suc i) (place opener f i s)))"
    by simp
  from Cons.IH [OF this] show ?case
    using place_draws [of p x y im opener f i s] by auto
qed

lemma layout_draws_only_chunk:
  "Image p x y im \<in> set (doc (createPDF_layout opener images)) \<Longrightarrow> p \<in> Compressed ` set images"
  using forEach_place_draws [of p x y im opener images 0
          "\<lparr>doc = [], cursor_x = MARGIN_X, cursor_y = MARGIN_Y, console = []\<rparr>"]
  by (simp add: createPDF_layout_def)

lemma normalize_file_printed:
  "\<exists>l. printed (snd (normalize_file env g w)) = printed w @ l"
proof -
  from validateImage_cases [of env "Input g" w]
  show ?thesis
  proof
    assume "validateImage env (Input g) w = (None, log (LogInvalidImage (Input g)) w)"
    then show ?thesis by (simp add: normalize_file_def)
  next
    assume "\<exists>b m. readFileSync w (Input g) = Inr b \<and> sharp_metadata env b = Some m
                   \<and> validateImage env (Input g) w = (Some m, w)"
    then obtain b m where b: "readFileSync w (Input g) = Inr b"
      and v: "validateImage env (Input g) w = (Some m, w)" by blast
    show ?thesis
    proof (cases "length b > MAX_IMAGE_SIZE_MB * (1024 * 1024)")
      case True
      let ?w = "log (LogCompressing g) w"
      from compressImage_cases [of env "Input g" "Compressed g" ?w]
      have "\<exists>l. printed (compressImage env (Input g) (Compressed g) ?w) = printed w @ l"
      proof
        assume "compressImage env (Input g) (Compressed g) ?w = log (LogCompressError (Input g)) ?w"
        then show ?thesis by simp
      next
        assume "\<exists>b out w'. readFileSync ?w (Input g) = Inr b
          \<and> sharp_resize_jpeg env b TARGET_WIDTH 80 = Some out
          \<and> writeFileSync ?w (Compressed g) out = Inr w'
          \<and> compressImage env (Input g) (Compressed g) ?w = log (LogCompressed (Compressed g)) w'"
        then obtain out w' where wr: "writeFileSync ?w (Compressed g) out = Inr w'"
          and c: "compressImage env (Input g) (Compressed g) ?w = log (LogCompressed (Compressed g)) w'"
          by blast
        show ?thesis
          using writeFileSync_Compressed [OF wr, of g] by (simp add: c)
      qed
      then show ?thesis using True b v by (simp add: normalize_file_def)
    next
      case False
      show ?thesis
      proof (cases "copyFileSync w (Input g) (Compressed g)")
        case (Inl e)
        then show ?thesis using False b v by (simp add: normalize_file_def)
      next
        case (Inr w2)
        then show ?thesis
          using False b v copyFileSync_frame [OF Inr, of g] by (simp add: normalize_file_def)
      qed
    qed
  qed
qed

lemma for_each_normalize_printed:
  "\<exists>l. printed (snd (for_each (normalize_file env) files w)) = printed w @ l"
proof (induction files arbitrary: w)
  case Nil
  then show ?case by simp
next
  case (Cons g rest)
  obtain r u where s: "normalize_file env g w = (r, u)" by (cases "normalize_file env g w")
  from normalize_file_printed [of env g w] s obtain l1 where l1: "printed u = printed w @ l1"
    by auto
  show ?case
  proof (cases r)
    case (Inl e)
    then show ?thesis using s l1 by simp
  next
    case (Inr x)
    from Cons.IH [of u] obtain l2
      where "printed (snd (for_each (normalize_file env) rest u)) = printed u @ l2" by blast
    then show ?thesis using Inr s l1 by simp
  qed
qed

lemma skip_in_loop:
  assumes "\<And>u. inputFolder u = inputFolder w \<Longrightarrow>
             normalize_file env f u = (Inr (), u\<lparr>printed := printed u @ l\<rparr>)"
  shows "fst (for_each (normalize_file env) (pre @ f # post) w)
           = fst (for_each (normalize_file env) (pre @ post) w)
       \<and> same_files (snd (for_each (normalize_file env) (pre @ f # post) w))
                     (snd (for_each (normalize_file env) (pre @ post) w))
       \<and> (fst (for_each (normalize_file env) pre w) = Inr ()
            \<longrightarrow> set l \<subseteq> set (printed (snd (for_each (normalize_file env) (pre @ f # post) w))))"
proof -
  obtain r u where p: "for_each (normalize_file env) pre w = (r, u)"
    by (cases "for_each (normalize_file env) pre w")
  show ?thesis
  proof (cases r)
    case (Inl e)
    then show ?thesis using p by (simp add: for_each_append)
  next
    case (Inr x)
    have "inputFolder u = inputFolder w"
      using for_each_normalize_frame [of env pre w f] p by simp
    then have step: "normalize_file env f u = (Inr (), u\<lparr>printed := printed u @ l\<rparr>)"
      by (rule assms)
    let ?u' = "u\<lparr>printed := printed u @ l\<rparr>"
    have sf: "same_files ?u' u" by (simp add: same_files_def)
    note eq = same_files_for_each [OF sf, of env post]
    from for_each_normalize_printed [of env post ?u'] obtain l'
      where "printed (snd (for_each (normalize_file env) post ?u')) = printed ?u' @ l'" by blast
    then have "set l \<subseteq> set (printed (snd (for_each (normalize_file env) post ?u')))"
      by auto
    then show ?thesis
      using Inr p step eq by (simp add: for_each_append)
  qed
qed

lemma skip_not_normalized:
  assumes "\<And>u. inputFolder u = inputFolder w \<Longrightarrow>
             normalize_file env f u = (Inr (), u\<lparr>printed := printed u @ l\<rparr>)"
  shows "lookup (snd (analyzeAndCompressImages env w)) (Compressed f) = lookup w (Compressed f)"
proof (cases "readdirSync (inputFolder w)")
  case (Inl e)
  then show ?thesis by (simp add: analyzeAndCompressImages_def)
next
  case (Inr names)
  then show ?thesis
    using skip_keeps_entry [of w env f l "filter (is_image_name env) names"] assms
    by (simp add: analyzeAndCompressImages_def)
qed

lemma invalid_is_skip:
  assumes "fst (validateImage env (Input f) w) = None" and "inputFolder u = inputFolder w"
  shows "normalize_file env f u = (Inr (), u\<lparr>printed := printed u @ [LogInvalidImage (Input f)]\<rparr>)"
proof -
  have "fst (validateImage env (Input f) u) = None"
    using assms validateImage_input_only [of u w env f] by simp
  then show ?thesis
    using normalize_file_invalid [of env f u] by (simp add: log_def)
qed

text \<open>A run of the whole program on a folder that holds one image and one corrupt file.\<close>

lemmas fs_defs = readFileSync_def readdirSync_def put_file_def copyFileSync_def entry_def log_def
lemmas norm_defs = analyzeAndCompressImages_def normalize_file_def validateImage_def
  compressImage_def is_image_name_def MAX_IMAGE_SIZE_MB_def TARGET_WIDTH_def
lemmas layout_defs = createPDF_layout_def place_def doc_image_def doc_text_def doc_addPage_def
  has_page_def geometry_defs Let_def
lemmas gen_defs = createPDFsFromImages_def createPDF_def opener_of_def finish_def promise_all_def
  chunk_tasks_def pdf_name_def slice_def addPage_calls_def
lemmas merge_defs = mergePDFs_def deleteFolder_def caught_def main_def

lemma demo_init:
  "init (demo_world fs) = \<lparr>inputFolder = Some (Dir fs), compressedFolder = Some (Dir []),
      pdfFolder = Some (Dir []), finalPDF = None, printed = []\<rparr>"
  by (simp add: init_def demo_world_def mkdir_unless_exists_def)

lemma demo_chunks: "chunk_loop [''a.jpg''] 0 = [([''a.jpg''], 1)]"
  by (simp add: chunk_loop.simps [of _ 0] chunk_loop.simps [of _ 15] slice_def IMAGES_PER_FILE_def)

lemma decimal_digit: "n < 10 \<Longrightarrow> decimal n = [digit n]"
  by (subst decimal.simps) simp

lemma demo_decimal: "decimal (Suc 0) = ''1''"
  by (simp add: decimal_digit digit_def)

lemma demo_gen:
  "createPDFsFromImages demo_env [0]
     \<lparr>inputFolder = i,
      compressedFolder = Some (Dir [(''a.jpg'', File [7,2,3])]), pdfFolder = Some (Dir []),
      finalPDF = fp, printed = l\<rparr>
   = (Inr [Pdf ''IMG_BANK_ACR_2024-01-01_output_1.pdf''],
      \<lparr>inputFolder = i,
      compressedFolder = Some (Dir [(''a.jpg'', File [7,2,3])]),
      pdfFolder = Some (Dir [(''IMG_BANK_ACR_2024-01-01_output_1.pdf'', File [Suc 0])]),
      finalPDF = fp,
      printed = l @ [LogGenerated [Pdf ''IMG_BANK_ACR_2024-01-01_output_1.pdf'']]\<rparr>)"
  by (simp add: gen_defs layout_defs fs_defs is_image_name_def demo_env_def demo_chunks demo_decimal)

lemma demo_merge:
  "mergePDFs demo_env [Pdf ''IMG_BANK_ACR_2024-01-01_output_1.pdf'']
      \<lparr>inputFolder = i,
      compressedFolder = c,
      pdfFolder = Some (Dir [(''IMG_BANK_ACR_2024-01-01_output_1.pdf'', File [Suc 0])]),
      finalPDF = None, printed = l\<rparr>
   = (Inr (), \<lparr>inputFolder = i,
      compressedFolder = c,
      pdfFolder = Some (Dir [(''IMG_BANK_ACR_2024-01-01_output_1.pdf'', File [Suc 0])]),
      finalPDF = Some (File [Suc 0]),
      printed = l @ [LogMerged]\<rparr>)"
  by (simp add: mergePDFs_def PDFDocument_save_def saved_pages_def fs_defs demo_env_def)

text \<open>
  The rest of a run of the demo environment once normalisation has left the one file
  a.jpg in the working area.
\<close>

lemma demo_rest:
  assumes "analyzeAndCompressImages demo_env (log LogStart (init (demo_world inp)))
             = (Inr (), \<lparr>inputFolder = Some (Dir inp),
                  compressedFolder = Some (Dir [(''a.jpg'', File [7,2,3])]),
                  pdfFolder = Some (Dir []), finalPDF = None, printed = l\<rparr>)"
  shows "main demo_env [0] (init (demo_world inp))
           = (Succeeded,
              \<lparr>inputFolder = Some (Dir inp), compressedFolder = None, pdfFolder = None,
                finalPDF = Some (File [Suc 0]),
                printed = l @ [LogGenerated [Pdf ''IMG_BANK_ACR_2024-01-01_output_1.pdf''],
                               LogMerged, LogDone]\<rparr>)"
  unfolding main_def assms
  by (simp add: demo_gen demo_merge deleteFolder_def log_def)

lemma demo_norm_invalid:
  "analyzeAndCompressImages demo_env
     (log LogStart (init (demo_world [(''a.jpg'', File [7,2,3]), (''bad.png'', File [])])))
   = (Inr (), \<lparr>inputFolder = Some (Dir [(''a.jpg'', File [7,2,3]), (''bad.png'', File [])]),
      compressedFolder = Some (Dir [(''a.jpg'', File [7,2,3])]), pdfFolder = Some (Dir []),
      finalPDF = None,
      printed = [LogStart, LogCopied ''a.jpg'', LogInvalidImage (Input ''bad.png'')]\<rparr>)"
  by (simp add: norm_defs fs_defs demo_env_def init_def mkdir_unless_exists_def demo_world_def)

lemma demo_run_invalid:
  "main demo_env [0] (init (demo_world [(''a.jpg'', File [7,2,3]), (''bad.png'', File [])]))
   = (Succeeded,
      \<lparr>inputFolder = Some (Dir [(''a.jpg'', File [7,2,3]), (''bad.png'', File [])]),
        compressedFolder = None, pdfFolder = None, finalPDF = Some (File [Suc 0]),
        printed = [LogStart, LogCopied ''a.jpg'', LogInvalidImage (Input ''bad.png''),
                   LogGenerated [Pdf ''IMG_BANK_ACR_2024-01-01_output_1.pdf''],
                   LogMerged, LogDone]\<rparr>)"
  using demo_rest [OF demo_norm_invalid] by simp

lemma demo_norm_big:
  "analyzeAndCompressImages demo_env
     (log LogStart (init (demo_world [(''a.jpg'', File [7,2,3]),
                                     (''big.jpg'', File (0 # replicate 2097152 5))])))
   = (Inr (), \<lparr>inputFolder = Some (Dir [(''a.jpg'', File [7,2,3]),
                                         (''big.jpg'', File (0 # replicate 2097152 5))]),
      compressedFolder = Some (Dir [(''a.jpg'', File [7,2,3])]), pdfFolder = Some (Dir []),
      finalPDF = None,
      printed = [LogStart, LogCopied ''a.jpg'', LogCompressing ''big.jpg'',
                 LogCompressError (Input ''big.jpg'')]\<rparr>)"
  by (simp add: norm_defs fs_defs demo_env_def init_def mkdir_unless_exists_def demo_world_def)

lemma demo_run_big:
  "main demo_env [0] (init (demo_world [(''a.jpg'', File [7,2,3]),
                                       (''big.jpg'', File (0 # replicate 2097152 5))]))
   = (Succeeded,
      \<lparr>inputFolder = Some (Dir [(''a.jpg'', File [7,2,3]),
                                 (''big.jpg'', File (0 # replicate 2097152 5))]),
        compressedFolder = None, pdfFolder = None, finalPDF = Some (File [Suc 0]),
        printed = [LogStart, LogCopied ''a.jpg'', LogCompressing ''big.jpg'',
                   LogCompressError (Input ''big.jpg''),
                   LogGenerated [Pdf ''IMG_BANK_ACR_2024-01-01_output_1.pdf''],
                   LogMerged, LogDone]\<rparr>)"
  using demo_rest [OF demo_norm_big] by simp

lemma absent_from_chunks:
  assumes "lookup w (Compressed f) = None"
    and "readdirSync (compressedFolder w) = Inr names"
    and "c \<in> set (chunk_tasks (filter (is_image_name env) names))"
  shows "f \<notin> set (fst c)
       \<and> Image (Compressed f) x y im \<notin> set (doc (createPDF_layout opener (fst c)))"
proof -
  from assms(2) obtain es where es: "compressedFolder w = Some (Dir es)" and n: "names = map fst es"
    by (auto simp: readdirSync_def split: option.splits node.splits)
  from assms(1) es have "map_of es f = None"
    by (simp add: entry_def)
  then have "f \<notin> set names"
    using n by (simp add: map_of_eq_None_iff)
  moreover have "set (fst c) \<subseteq> set (filter (is_image_name env) names)"
    using chunk_loop_sizes [of c "filter (is_image_name env) names" 0] assms(3)
    by (simp add: chunk_tasks_def)
  ultimately have a: "f \<notin> set (fst c)" by auto
  have "Image (Compressed f) x y im \<notin> set (doc (createPDF_layout opener (fst c)))"
  proof
    assume "Image (Compressed f) x y im \<in> set (doc (createPDF_layout opener (fst c)))"
    from layout_draws_only_chunk [OF this] a show False by auto
  qed
  with a show ?thesis by simp
qed

text \<open>
  C7. A source file for which validateImage returns null, because sharp cannot decode
  it, is reported on the console as an invalid image and skipped: its pass through the
  loop throws nothing and writes nothing. The loop over a listing that holds the file
  has the same outcome and leaves the same folders as the loop over the listing
  without it, so the other images are not affected. No normalised copy of the file is
  made; when the working area held none before, the file is in no chunk and no
  generated document draws it. And a run with such a file can succeed.
\<close>

theorem invalid_image_contained:
  assumes "fst (validateImage env (Input f) w) = None"
  shows "normalize_file env f w = (Inr (), log (LogInvalidImage (Input f)) w)
       \<and> fst (for_each (normalize_file env) (pre @ f # post) w)
           = fst (for_each (normalize_file env) (pre @ post) w)
       \<and> same_files (snd (for_each (normalize_file env) (pre @ f # post) w))
                     (snd (for_each (normalize_file env) (pre @ post) w))
       \<and> (fst (for_each (normalize_file env) pre w) = Inr ()
            \<longrightarrow> LogInvalidImage (Input f)
                  \<in> set (printed (snd (for_each (normalize_file env) (pre @ f # post) w))))
       \<and> lookup (snd (analyzeAndCompressImages env w)) (Compressed f) = lookup w (Compressed f)
       \<and> (lookup w (Compressed f) = None \<longrightarrow>
            (\<forall>names opener x y im.
               readdirSync (compressedFolder (snd (analyzeAndCompressImages env w))) = Inr names \<longrightarrow>
               (\<forall>c \<in> set (chunk_tasks (filter (is_image_name env) names)).
                  f \<notin> set (fst c)
                  \<and> Image (Compressed f) x y im \<notin> set (doc (createPDF_layout opener (fst c))))))
       \<and> (\<exists>env' sched w0 g.
             fst (validateImage env' (Input g) (log LogStart (init w0))) = None
             \<and> readdirSync (inputFolder w0) = Inr [''a.jpg'', g]
             \<and> is_image_name env' g
             \<and> fst (main env' sched (init w0)) = Succeeded)"
proof -
  let ?w0 = "demo_world [(''a.jpg'', File [7,2,3]), (''bad.png'', File [])]"
  have demo: "fst (validateImage demo_env (Input ''bad.png'') (log LogStart (init ?w0))) = None
              \<and> readdirSync (inputFolder ?w0) = Inr [''a.jpg'', ''bad.png'']
              \<and> is_image_name demo_env ''bad.png''
              \<and> fst (main demo_env [0] (init ?w0)) = Succeeded"
    by (simp add: demo_run_invalid)
       (simp add: init_def mkdir_unless_exists_def validateImage_def fs_defs demo_env_def
          demo_world_def is_image_name_def)
  have ex: "\<exists>env' sched w0 g.
             fst (validateImage env' (Input g) (log LogStart (init w0))) = None
             \<and> readdirSync (inputFolder w0) = Inr [''a.jpg'', g]
             \<and> is_image_name env' g
             \<and> fst (main env' sched (init w0)) = Succeeded"
    using demo by blast
  note skip = invalid_is_skip [OF assms]
  have loop: "fst (for_each (normalize_file env) (pre @ f # post) w)
           = fst (for_each (normalize_file env) (pre @ post) w)
       \<and> same_files (snd (for_each (normalize_file env) (pre @ f # post) w))
                     (snd (for_each (normalize_file env) (pre @ post) w))
       \<and> (fst (for_each (normalize_file env) pre w) = Inr ()
            \<longrightarrow> LogInvalidImage (Input f)
                  \<in> set (printed (snd (for_each (normalize_file env) (pre @ f # post) w))))"
    using skip_in_loop [of w env f "[LogInvalidImage (Input f)]" pre post] skip by simp
  have keep: "lookup (snd (analyzeAndCompressImages env w)) (Compressed f) = lookup w (Compressed f)"
    using skip_not_normalized [of w env f "[LogInvalidImage (Input f)]"] skip by simp
  have chunks: "\<forall>names opener x y im.
               readdirSync (compressedFolder (snd (analyzeAndCompressImages env w))) = Inr names \<longrightarrow>
               (\<forall>c \<in> set (chunk_tasks (filter (is_image_name env) names)).
                  f \<notin> set (fst c)
                  \<and> Image (Compressed f) x y im \<notin> set (doc (createPDF_layout opener (fst c))))"
    if "lookup w (Compressed f) = None"
    using absent_from_chunks [of "snd (analyzeAndCompressImages env w)" f] that keep
    by simp
  show ?thesis
    using normalize_file_invalid [OF assms] loop keep chunks ex
    by blast
qed

theorem invalid_image_contained_witness:
  "fst (validateImage demo_env (Input ''bad.png'')
          (init (demo_world [(''a.jpg'', File [7,2,3]), (''bad.png'', File [])]))) = None
   \<and> normalize_file demo_env ''bad.png''
          (init (demo_world [(''a.jpg'', File [7,2,3]), (''bad.png'', File [])]))
       = (Inr (), log (LogInvalidImage (Input ''bad.png''))
                    (init (demo_world [(''a.jpg'', File [7,2,3]), (''bad.png'', File [])])))
   \<and> lookup (snd (analyzeAndCompressImages demo_env
                    (init (demo_world [(''a.jpg'', File [7,2,3]), (''bad.png'', File [])]))))
         (Compressed ''bad.png'') = None"
proof -
  let ?w = "init (demo_world [(''a.jpg'', File [7,2,3]), (''bad.png'', File [])])"
  have h: "fst (validateImage demo_env (Input ''bad.png'') ?w) = None"
    by (simp add: init_def mkdir_unless_exists_def validateImage_def fs_defs demo_env_def
          demo_world_def)
  have l: "lookup ?w (Compressed ''bad.png'') = None"
    by (simp add: init_def mkdir_unless_exists_def demo_world_def entry_def)
  show ?thesis
    using invalid_image_contained [of demo_env "''bad.png''" ?w "[]" "[]"] h l
    by simp
qed

lemma put_file_can_write:
  "can_write folder name \<Longrightarrow>
     \<exists>d. put_file folder name b = Inr d \<and> entry d name = Some (File b)"
  by (auto simp: can_write_def put_file_def entry_def update_conv'
           split: option.splits node.splits)







lemma normalize_file_compress_fails:
  assumes "readFileSync w (Input f) = Inr b" and "sharp_metadata env b \<noteq> None"
    and "length b > 2 * (1024 * 1024)"
    and "sharp_resize_jpeg env b 1920 80 = None"
  shows "normalize_file env f w
           = (Inr (), log (LogCompressError (Input f)) (log (LogCompressing f) w))"
proof -
  from assms(2) obtain m where m: "sharp_metadata env b = Some m" by auto
  show ?thesis
    using assms(1,3,4) m
    by (simp add: normalize_file_def validateImage_def compressImage_def
          MAX_IMAGE_SIZE_MB_def TARGET_WIDTH_def)
qed




text \<open>
  C10. For a decodable source file over 2 MB whose resize fails, the pass through the
  loop returns normally and only prints two lines, the announcement and the
  compression error: nothing is written and nothing is thrown, and no line calls the
  image invalid. The loop has the same outcome and leaves the same folders as without
  the file; no normalised copy exists for it, so the file, though a valid image of the
  listing, is in no chunk and no generated document draws it. Such a run can end with
  the line of success.
\<close>

theorem compression_failure_silent:
  assumes "readFileSync w (Input f) = Inr b"
    and "sharp_metadata env b \<noteq> None"
    and "length b > 2 * (1024 * 1024)"
    and "sharp_resize_jpeg env b 1920 80 = None"
  shows "normalize_file env f w
           = (Inr (), w\<lparr>printed := printed w @ [LogCompressing f, LogCompressError (Input f)]\<rparr>)
       \<and> fst (for_each (normalize_file env) (pre @ f # post) w)
           = fst (for_each (normalize_file env) (pre @ post) w)
       \<and> same_files (snd (for_each (normalize_file env) (pre @ f # post) w))
                     (snd (for_each (normalize_file env) (pre @ post) w))
       \<and> lookup (snd (analyzeAndCompressImages env w)) (Compressed f) = lookup w (Compressed f)
       \<and> (lookup w (Compressed f) = None \<longrightarrow>
            (\<forall>names opener x y im.
               readdirSync (compressedFolder (snd (analyzeAndCompressImages env w))) = Inr names \<longrightarrow>
               (\<forall>c \<in> set (chunk_tasks (filter (is_image_name env) names)).
                  f \<notin> set (fst c)
                  \<and> Image (Compressed f) x y im \<notin> set (doc (createPDF_layout opener (fst c))))))
       \<and> (\<exists>env' sched w0 g b'.
             readFileSync (init w0) (Input g) = Inr b'
             \<and> sharp_metadata env' b' \<noteq> None
             \<and> length b' > 2 * (1024 * 1024)
             \<and> sharp_resize_jpeg env' b' 1920 80 = None
             \<and> readdirSync (inputFolder w0) = Inr [''a.jpg'', g]
             \<and> is_image_name env' g
             \<and> fst (main env' sched (init w0)) = Succeeded
             \<and> last (printed (snd (main env' sched (init w0)))) = LogDone
             \<and> LogInvalidImage (Input g) \<notin> set (printed (snd (main env' sched (init w0)))))"
proof -
  let ?l = "[LogCompressing f, LogCompressError (Input f)]"
  have skip: "normalize_file env f u = (Inr (), u\<lparr>printed := printed u @ ?l\<rparr>)"
    if "inputFolder u = inputFolder w" for u
  proof -
    have "readFileSync u (Input f) = Inr b"
      using assms(1) readFileSync_input_only [OF that, of f] by simp
    from normalize_file_compress_fails [OF this assms(2,3,4)]
    show ?thesis by (simp add: log_def)
  qed
  have loop: "fst (for_each (normalize_file env) (pre @ f # post) w)
           = fst (for_each (normalize_file env) (pre @ post) w)
       \<and> same_files (snd (for_each (normalize_file env) (pre @ f # post) w))
                     (snd (for_each (normalize_file env) (pre @ post) w))"
    using skip_in_loop [of w env f ?l pre post] skip by simp
  have keep: "lookup (snd (analyzeAndCompressImages env w)) (Compressed f) = lookup w (Compressed f)"
    using skip_not_normalized [of w env f ?l] skip by simp
  have chunks: "\<forall>names opener x y im.
               readdirSync (compressedFolder (snd (analyzeAndCompressImages env w))) = Inr names \<longrightarrow>
               (\<forall>c \<in> set (chunk_tasks (filter (is_image_name env) names)).
                  f \<notin> set (fst c)
                  \<and> Image (Compressed f) x y im \<notin> set (doc (createPDF_layout opener (fst c))))"
    if "lookup w (Compressed f) = None"
    using absent_from_chunks [of "snd (analyzeAndCompressImages env w)" f] that keep
    by simp
  let ?w0 = "demo_world [(''a.jpg'', File [7,2,3]), (''big.jpg'', File (0 # replicate 2097152 5))]"
  have demo: "readFileSync (init ?w0) (Input ''big.jpg'') = Inr (0 # replicate 2097152 5)
             \<and> sharp_metadata demo_env (0 # replicate 2097152 5) \<noteq> None
             \<and> length (0 # replicate 2097152 (5::nat)) > 2 * (1024 * 1024)
             \<and> sharp_resize_jpeg demo_env (0 # replicate 2097152 5) 1920 80 = None
             \<and> readdirSync (inputFolder ?w0) = Inr [''a.jpg'', ''big.jpg'']
             \<and> is_image_name demo_env ''big.jpg''
             \<and> fst (main demo_env [0] (init ?w0)) = Succeeded
             \<and> last (printed (snd (main demo_env [0] (init ?w0)))) = LogDone
             \<and> LogInvalidImage (Input ''big.jpg'') \<notin> set (printed (snd (main demo_env [0] (init ?w0))))"
    by (simp add: demo_run_big)
       (simp add: init_def fs_defs demo_env_def demo_world_def is_image_name_def)
  have ex: "\<exists>env' sched w0 g b'.
             readFileSync (init w0) (Input g) = Inr b'
             \<and> sharp_metadata env' b' \<noteq> None
             \<and> length b' > 2 * (1024 * 1024)
             \<and> sharp_resize_jpeg env' b' 1920 80 = None
             \<and> readdirSync (inputFolder w0) = Inr [''a.jpg'', g]
             \<and> is_image_name env' g
             \<and> fst (main env' sched (init w0)) = Succeeded
             \<and> last (printed (snd (main env' sched (init w0)))) = LogDone
             \<and> LogInvalidImage (Input g) \<notin> set (printed (snd (main env' sched (init w0))))"
    using demo by blast
  show ?thesis
    using skip [of w] loop keep chunks ex by blast
qed

theorem compression_failure_silent_witness:
  "normalize_file demo_env ''big.jpg''
     (init (demo_world [(''a.jpg'', File [7,2,3]), (''big.jpg'', File (0 # replicate 2097152 5))]))
   = (Inr (),
      (init (demo_world [(''a.jpg'', File [7,2,3]), (''big.jpg'', File (0 # replicate 2097152 5))]))
        \<lparr>printed := [LogCompressing ''big.jpg'', LogCompressError (Input ''big.jpg'')]\<rparr>)
   \<and> lookup (snd (analyzeAndCompressImages demo_env
         (init (demo_world [(''a.jpg'', File [7,2,3]), (''big.jpg'', File (0 # replicate 2097152 5))]))))
        (Compressed ''big.jpg'') = None"
proof -
  let ?w = "init (demo_world [(''a.jpg'', File [7,2,3]), (''big.jpg'', File (0 # replicate 2097152 5))])"
  have r: "readFileSync ?w (Input ''big.jpg'') = Inr (0 # replicate 2097152 5)"
    by (simp add: init_def demo_world_def readFileSync_def entry_def)
  have m: "sharp_metadata demo_env (0 # replicate 2097152 5) \<noteq> None"
    by (simp add: demo_env_def)
  have g: "length (0 # replicate 2097152 (5::nat)) > 2 * (1024 * 1024)"
    by simp
  have n: "sharp_resize_jpeg demo_env (0 # replicate 2097152 5) 1920 80 = None"
    by (simp add: demo_env_def)
  have l: "lookup ?w (Compressed ''big.jpg'') = None" and p: "printed ?w = []"
    by (simp_all add: init_def mkdir_unless_exists_def demo_world_def entry_def)
  show ?thesis
    using compression_failure_silent [OF r m g n, of "[]" "[]"] l p by simp
qed

section \<open>Properties of the merge\<close>

lemma merge_loop_loadable:
  assumes "\<forall>p \<in> set pdfPaths. loadable env w p"
  shows "merge_loop env w pdfPaths merged
           = Inr (merged @ concat (map (document_pages env w) pdfPaths))"
  using assms
proof (induction pdfPaths arbitrary: merged)
  case Nil
  then show ?case by simp
next
  case (Cons p rest)
  from Cons.prems have "loadable env w p" by simp
  then obtain b pages where b: "readFileSync w p = Inr b" and l: "pdflib_load env b = Some pages"
    by (auto simp: loadable_def split: sum.splits)
  then have d: "document_pages env w p = pages"
    by (simp add: document_pages_def)
  have "merge_loop env w (p # rest) merged = merge_loop env w rest (merged @ pages)"
    using b l by simp
  also have "\<dots> = Inr ((merged @ pages) @ concat (map (document_pages env w) rest))"
    using Cons.IH [of "merged @ pages"] Cons.prems by simp
  finally show ?case using d by simp
qed

lemma merge_loop_not_loadable:
  assumes "\<exists>p \<in> set pdfPaths. \<not> loadable env w p"
  shows "\<exists>e. merge_loop env w pdfPaths merged = Inl e"
  using assms
proof (induction pdfPaths arbitrary: merged)
  case Nil
  then show ?case by simp
next
  case (Cons p rest)
  show ?case
  proof (cases "loadable env w p")
    case True
    then obtain b pages where b: "readFileSync w p = Inr b" and l: "pdflib_load env b = Some pages"
      by (auto simp: loadable_def split: sum.splits)
    from Cons.prems True have "\<exists>q \<in> set rest. \<not> loadable env w q" by auto
    from Cons.IH [OF this, of "merged @ pages"] show ?thesis
      using b l by simp
  next
    case False
    then show ?thesis
      by (auto simp: loadable_def split: sum.splits option.splits)
  qed
qed

text \<open>
  C2, as the code has it. Take an ordered list of paths that each hold a document
  that pdf-lib loads, with at least one page between them, and let pdf-lib read back
  from the saved bytes the page list that it saved. Then mergePDFs returns normally
  and the page sequence of the final document is the concatenation, in the order of the
  list, of the pages of each document in their own order; so the page count of the
  final document is the sum of the page counts of the documents. (The list that the
  main process passes is in ascending order of sequence index, see C8.)
\<close>

theorem merger_correct:
  assumes "\<forall>p \<in> set pdfPaths. loadable env w p"
    and "concat (map (document_pages env w) pdfPaths) \<noteq> []"
    and "pdflib_load env (pdflib_save env (concat (map (document_pages env w) pdfPaths)))
           = Some (concat (map (document_pages env w) pdfPaths))"
    and "\<forall>es. finalPDF w \<noteq> Some (Dir es)"
  shows "merge_loop env w pdfPaths [] = Inr (concat (map (document_pages env w) pdfPaths))
       \<and> fst (mergePDFs env pdfPaths w) = Inr ()
       \<and> document_pages env (snd (mergePDFs env pdfPaths w)) Final
           = concat (map (document_pages env w) pdfPaths)
       \<and> length (document_pages env (snd (mergePDFs env pdfPaths w)) Final)
           = sum_list (map (\<lambda>p. length (document_pages env w p)) pdfPaths)"
proof -
  define merged where "merged = concat (map (document_pages env w) pdfPaths)"
  let ?w' = "log LogMerged (w\<lparr>finalPDF := Some (File (pdflib_save env merged))\<rparr>)"
  have ne: "merged \<noteq> []"
    unfolding merged_def by (rule assms(2))
  have rt: "pdflib_load env (pdflib_save env merged) = Some merged"
    unfolding merged_def by (rule assms(3))
  have loop: "merge_loop env w pdfPaths [] = Inr merged"
    using merge_loop_loadable [OF assms(1), of "[]"] by (simp add: merged_def)
  have saved: "PDFDocument_save env merged = pdflib_save env merged"
    using ne by (simp add: PDFDocument_save_def saved_pages_def)
  have run: "mergePDFs env pdfPaths w = (Inr (), ?w')"
    using loop saved assms(4)
    by (simp add: mergePDFs_def split: option.splits node.splits)
  have final: "document_pages env ?w' Final = merged"
    using rt by (simp add: document_pages_def readFileSync_def)
  have len: "length merged = sum_list (map (\<lambda>p. length (document_pages env w p)) pdfPaths)"
    by (simp add: merged_def length_concat comp_def)
  have "merge_loop env w pdfPaths [] = Inr merged
       \<and> fst (mergePDFs env pdfPaths w) = Inr ()
       \<and> document_pages env (snd (mergePDFs env pdfPaths w)) Final = merged
       \<and> length (document_pages env (snd (mergePDFs env pdfPaths w)) Final)
           = sum_list (map (\<lambda>p. length (document_pages env w p)) pdfPaths)"
    using loop final len by (simp add: run)
  then show ?thesis
    unfolding merged_def .
qed

theorem merger_correct_witness:
  "document_pages demo_env
     (snd (mergePDFs demo_env [Pdf ''1.pdf'', Pdf ''2.pdf'']
        \<lparr>inputFolder = None, compressedFolder = None,
         pdfFolder = Some (Dir [(''1.pdf'', File [4, 5]), (''2.pdf'', File [6])]),
         finalPDF = None, printed = []\<rparr>))
     Final
   = [[AddPage 4 4], [AddPage 5 5], [AddPage 6 6]]"
proof -
  let ?w = "\<lparr>inputFolder = None, compressedFolder = None,
      pdfFolder = Some (Dir [(''1.pdf'', File [4, 5]), (''2.pdf'', File [6])]),
      finalPDF = None, printed = []\<rparr>"
  let ?ps = "[Pdf ''1.pdf'', Pdf ''2.pdf'']"
  have l: "\<forall>p \<in> set ?ps. loadable demo_env ?w p"
    by (simp add: loadable_def readFileSync_def entry_def demo_env_def)
  have d: "concat (map (document_pages demo_env ?w) ?ps)
             = [[AddPage 4 4], [AddPage 5 5], [AddPage 6 6]]"
    by (simp add: document_pages_def readFileSync_def entry_def demo_env_def)
  have n: "concat (map (document_pages demo_env ?w) ?ps) \<noteq> []"
    by (simp only: d) simp
  have r: "pdflib_load demo_env (pdflib_save demo_env (concat (map (document_pages demo_env ?w) ?ps)))
             = Some (concat (map (document_pages demo_env ?w) ?ps))"
    by (simp only: d) (simp add: demo_env_def)
  have f: "\<forall>es. finalPDF ?w \<noteq> Some (Dir es)"
    by simp
  show ?thesis
    using merger_correct [OF l n r f] by (simp only: d)
qed

text \<open>
  The claim C2 as the specification words it fails for the empty list, which the main
  process passes when the input folder holds no image: no document is merged, the sum
  of the page counts is 0, and the final document has one page, the blank page that
  \<^verbatim>\<open>save\<close> adds.
\<close>

lemma chunk_tasks_empty: "chunk_tasks [] = []"
  by (simp add: chunk_tasks_def chunk_loop.simps [of "[]" 0])

lemma demo_run_empty:
  "main demo_env [] (init (demo_world []))
   = (Succeeded,
      \<lparr>inputFolder = Some (Dir []), compressedFolder = None, pdfFolder = None,
       finalPDF = Some (File [0]),
       printed = [LogStart, LogGenerated [], LogMerged, LogDone]\<rparr>)"
  by (simp add: main_def analyzeAndCompressImages_def createPDFsFromImages_def mergePDFs_def
        PDFDocument_save_def saved_pages_def blank_page_def promise_all_def chunk_tasks_empty
        deleteFolder_def readdirSync_def init_def demo_world_def demo_env_def
        mkdir_unless_exists_def log_def)

theorem merger_counterexample:
  "fst (mergePDFs demo_env [] (init (demo_world []))) = Inr ()
   \<and> document_pages demo_env (snd (mergePDFs demo_env [] (init (demo_world [])))) Final
       = [blank_page]
   \<and> concat (map (document_pages demo_env (init (demo_world []))) []) = []
   \<and> length (document_pages demo_env (snd (mergePDFs demo_env [] (init (demo_world [])))) Final)
       \<noteq> sum_list (map (\<lambda>p. length (document_pages demo_env (init (demo_world [])) p)) [])
   \<and> fst (main demo_env [] (init (demo_world []))) = Succeeded
   \<and> document_pages demo_env (snd (main demo_env [] (init (demo_world [])))) Final
       = [blank_page]"
proof -
  have "fst (mergePDFs demo_env [] (init (demo_world []))) = Inr ()
   \<and> document_pages demo_env (snd (mergePDFs demo_env [] (init (demo_world [])))) Final
       = [blank_page]"
    by (simp add: mergePDFs_def PDFDocument_save_def saved_pages_def blank_page_def
          document_pages_def readFileSync_def init_def demo_world_def demo_env_def
          mkdir_unless_exists_def log_def)
  moreover have "fst (main demo_env [] (init (demo_world []))) = Succeeded
   \<and> document_pages demo_env (snd (main demo_env [] (init (demo_world [])))) Final
       = [blank_page]"
    by (simp add: demo_run_empty)
       (simp add: document_pages_def readFileSync_def demo_env_def blank_page_def)
  ultimately show ?thesis by simp
qed

section \<open>Properties of the cleanup and of the main process\<close>

lemma delete_entries_result:
  "delete_entries listing cur = Inr (filter (\<lambda>e. fst e \<notin> fst ` set listing) cur)"
proof (induction listing cur rule: delete_entries.induct)
  case (1 cur)
  then show ?case by simp
next
  case (2 name b rest cur)
  then show ?case
    by (simp add: AList.delete_eq) (rule filter_cong, auto)
next
  case (3 name sub rest cur)
  have "filter (\<lambda>e. fst e \<notin> fst ` set sub) sub = []"
    by (simp add: filter_empty_conv)
  then have "delete_entries sub sub = Inr []"
    using "3.IH"(1) by simp
  then show ?case
    using "3.IH"(2) [of "[]"]
    by (simp add: AList.delete_eq) (rule filter_cong, auto)
qed

lemma deleteFolder_Dir: "deleteFolder (Some (Dir es)) = Inr None"
  by (simp add: deleteFolder_def delete_entries_result filter_empty_conv)

lemma is_dir_put_file: "put_file folder g b = Inr d \<Longrightarrow> is_dir folder \<and> is_dir d"
  by (auto simp: put_file_def is_dir_def split: option.splits node.splits)

lemma normalize_file_compressed:
  "compressedFolder (snd (normalize_file env g w)) = compressedFolder w
   \<or> (\<exists>b. put_file (compressedFolder w) g b = Inr (compressedFolder (snd (normalize_file env g w))))"
proof -
  from validateImage_cases [of env "Input g" w]
  show ?thesis
  proof
    assume "validateImage env (Input g) w = (None, log (LogInvalidImage (Input g)) w)"
    then show ?thesis by (simp add: normalize_file_def)
  next
    assume "\<exists>b m. readFileSync w (Input g) = Inr b \<and> sharp_metadata env b = Some m
                   \<and> validateImage env (Input g) w = (Some m, w)"
    then obtain b m where b: "readFileSync w (Input g) = Inr b"
      and v: "validateImage env (Input g) w = (Some m, w)" by blast
    show ?thesis
    proof (cases "length b > MAX_IMAGE_SIZE_MB * (1024 * 1024)")
      case True
      let ?w = "log (LogCompressing g) w"
      from compressImage_cases [of env "Input g" "Compressed g" ?w]
      have "compressedFolder (compressImage env (Input g) (Compressed g) ?w) = compressedFolder w
            \<or> (\<exists>b. put_file (compressedFolder w) g b
                      = Inr (compressedFolder (compressImage env (Input g) (Compressed g) ?w)))"
      proof
        assume "compressImage env (Input g) (Compressed g) ?w = log (LogCompressError (Input g)) ?w"
        then show ?thesis by simp
      next
        assume "\<exists>b out w'. readFileSync ?w (Input g) = Inr b
          \<and> sharp_resize_jpeg env b TARGET_WIDTH 80 = Some out
          \<and> writeFileSync ?w (Compressed g) out = Inr w'
          \<and> compressImage env (Input g) (Compressed g) ?w = log (LogCompressed (Compressed g)) w'"
        then obtain out w' where wr: "writeFileSync ?w (Compressed g) out = Inr w'"
          and c: "compressImage env (Input g) (Compressed g) ?w = log (LogCompressed (Compressed g)) w'"
          by blast
        from wr have "put_file (compressedFolder w) g out = Inr (compressedFolder w')"
          by (auto split: sum.splits)
        then show ?thesis by (auto simp: c)
      qed
      then show ?thesis using True b v by (simp add: normalize_file_def)
    next
      case False
      show ?thesis
      proof (cases "copyFileSync w (Input g) (Compressed g)")
        case (Inl e)
        then show ?thesis using False b v by (simp add: normalize_file_def)
      next
        case (Inr w2)
        then have "writeFileSync w (Compressed g) b = Inr w2"
          using b by (simp add: copyFileSync_def)
        then have "put_file (compressedFolder w) g b = Inr (compressedFolder w2)"
          by (auto split: sum.splits)
        then show ?thesis
          using Inr False b v by (auto simp: normalize_file_def)
      qed
    qed
  qed
qed

lemma is_dir_normalize_file:
  "is_dir (compressedFolder w) \<Longrightarrow> is_dir (compressedFolder (snd (normalize_file env g w)))"
  using normalize_file_compressed [of env g w] is_dir_put_file by metis

lemma is_dir_for_each_normalize:
  "is_dir (compressedFolder w) \<Longrightarrow>
     is_dir (compressedFolder (snd (for_each (normalize_file env) files w)))"
proof (induction files arbitrary: w)
  case Nil
  then show ?case by simp
next
  case (Cons g rest)
  obtain r u where s: "normalize_file env g w = (r, u)" by (cases "normalize_file env g w")
  have du: "is_dir (compressedFolder u)"
    using is_dir_normalize_file [OF Cons.prems, of env g] s by simp
  show ?case
  proof (cases r)
    case (Inl e)
    then show ?thesis using s du by simp
  next
    case (Inr x)
    then show ?thesis using s Cons.IH [OF du] by simp
  qed
qed

lemma analyze_frame:
  "inputFolder (snd (analyzeAndCompressImages env w)) = inputFolder w
   \<and> pdfFolder (snd (analyzeAndCompressImages env w)) = pdfFolder w
   \<and> finalPDF (snd (analyzeAndCompressImages env w)) = finalPDF w
   \<and> (is_dir (compressedFolder w) \<longrightarrow> is_dir (compressedFolder (snd (analyzeAndCompressImages env w))))"
proof (cases "readdirSync (inputFolder w)")
  case (Inl e)
  then show ?thesis by (simp add: analyzeAndCompressImages_def)
next
  case (Inr names)
  then show ?thesis
    using for_each_normalize_frame [of env "filter (is_image_name env) names" w undefined]
      is_dir_for_each_normalize [of w env "filter (is_image_name env) names"]
    by (simp add: analyzeAndCompressImages_def)
qed

lemma finish_frame:
  assumes "\<forall>t \<in> set tasks. \<exists>n. outputPDF t = Pdf n"
  shows "inputFolder (snd (finish tasks k w)) = inputFolder w
       \<and> compressedFolder (snd (finish tasks k w)) = compressedFolder w
       \<and> finalPDF (snd (finish tasks k w)) = finalPDF w
       \<and> printed (snd (finish tasks k w)) = printed w
       \<and> (is_dir (pdfFolder w) \<longrightarrow> is_dir (pdfFolder (snd (finish tasks k w))))"
proof (cases "k < length tasks")
  case True
  with assms obtain n where n: "outputPDF (tasks ! k) = Pdf n" by (meson nth_mem)
  show ?thesis
  proof (cases "put_file (pdfFolder w) n (piped (tasks ! k))")
    case (Inl e)
    then show ?thesis using True n by (simp add: finish_def)
  next
    case (Inr d)
    then show ?thesis using True n is_dir_put_file [OF Inr] by (simp add: finish_def)
  qed
next
  case False
  then show ?thesis by (simp add: finish_def)
qed

lemma for_each_finish_frame:
  assumes "\<forall>t \<in> set tasks. \<exists>n. outputPDF t = Pdf n"
  shows "inputFolder (snd (for_each (finish tasks) sched w)) = inputFolder w
       \<and> compressedFolder (snd (for_each (finish tasks) sched w)) = compressedFolder w
       \<and> finalPDF (snd (for_each (finish tasks) sched w)) = finalPDF w
       \<and> printed (snd (for_each (finish tasks) sched w)) = printed w
       \<and> (is_dir (pdfFolder w) \<longrightarrow> is_dir (pdfFolder (snd (for_each (finish tasks) sched w))))"
proof (induction sched arbitrary: w)
  case Nil
  then show ?case by simp
next
  case (Cons k rest)
  obtain r u where s: "finish tasks k w = (r, u)" by (cases "finish tasks k w")
  note fr = finish_frame [OF assms, of k w]
  show ?case
  proof (cases r)
    case (Inl e)
    then show ?thesis using s fr by simp
  next
    case (Inr x)
    then show ?thesis using s fr Cons.IH [of u] by simp
  qed
qed

lemma tasks_are_pdf:
  "\<forall>t \<in> set (map (\<lambda>(chunk, pdfIndex). createPDF env w chunk pdfIndex) cs). \<exists>n. outputPDF t = Pdf n"
  by (auto simp: createPDF_def Let_def)

lemma generate_frame:
  "inputFolder (snd (createPDFsFromImages env sched w)) = inputFolder w
   \<and> compressedFolder (snd (createPDFsFromImages env sched w)) = compressedFolder w
   \<and> finalPDF (snd (createPDFsFromImages env sched w)) = finalPDF w
   \<and> (is_dir (pdfFolder w) \<longrightarrow> is_dir (pdfFolder (snd (createPDFsFromImages env sched w))))"
proof (cases "readdirSync (compressedFolder w)")
  case (Inl e)
  then show ?thesis by (simp add: createPDFsFromImages_def)
next
  case (Inr names)
  let ?tasks = "map (\<lambda>(chunk, pdfIndex). createPDF env w chunk pdfIndex)
                  (chunk_tasks (filter (is_image_name env) names))"
  let ?w1 = "w\<lparr>printed := printed w @ concat (map lines ?tasks)\<rparr>"
  note fr = for_each_finish_frame [OF tasks_are_pdf, of env w "chunk_tasks (filter (is_image_name env) names)" sched ?w1]
  obtain r u where s: "for_each (finish ?tasks) sched ?w1 = (r, u)"
    by (cases "for_each (finish ?tasks) sched ?w1")
  show ?thesis
    using Inr fr s
    by (auto simp: createPDFsFromImages_def Let_def split: sum.splits option.splits)
qed

lemma merge_frame:
  "inputFolder (snd (mergePDFs env pdfs w)) = inputFolder w
   \<and> compressedFolder (snd (mergePDFs env pdfs w)) = compressedFolder w
   \<and> pdfFolder (snd (mergePDFs env pdfs w)) = pdfFolder w"
  by (auto simp: mergePDFs_def split: sum.splits option.splits node.splits)

lemma caught_frame [simp]:
  "inputFolder (caught e w) = inputFolder w"
  "compressedFolder (caught e w) = compressedFolder w"
  "pdfFolder (caught e w) = pdfFolder w"
  "finalPDF (caught e w) = finalPDF w"
  by (simp_all add: caught_def)

lemma is_dir_not_None: "is_dir folder \<Longrightarrow> folder \<noteq> None"
  by (auto simp: is_dir_def split: option.splits)

lemma deleteFolder_is_dir: "is_dir folder \<Longrightarrow> deleteFolder folder = Inr None"
  by (auto simp: is_dir_def deleteFolder_Dir split: option.splits node.splits)

text \<open>
  C9. In a run whose two working areas are directories when it starts: the run ends
  with both working areas removed if and only if it succeeded, and it succeeds if and
  only if normalisation, generation and the merge all returned normally. When
  normalisation, generation or the merge throws, the run ends there: the working areas
  are the directories that the failed stage left, with what they hold.
\<close>

theorem cleanup_gating:
  assumes "is_dir (compressedFolder w)" and "is_dir (pdfFolder w)"
  shows "(fst (main env sched w) = Succeeded
            \<longleftrightarrow> compressedFolder (snd (main env sched w)) = None
                \<and> pdfFolder (snd (main env sched w)) = None)
       \<and> (fst (main env sched w) = Succeeded
            \<longleftrightarrow> (\<exists>w1 pdfs w2 w3.
                   analyzeAndCompressImages env (log LogStart w) = (Inr (), w1)
                   \<and> createPDFsFromImages env sched w1 = (Inr pdfs, w2)
                   \<and> mergePDFs env pdfs w2 = (Inr (), w3)))
       \<and> (\<forall>e w1. analyzeAndCompressImages env (log LogStart w) = (Inl e, w1) \<longrightarrow>
              fst (main env sched w) = NormalizationFailed e
              \<and> compressedFolder (snd (main env sched w)) = compressedFolder w1
              \<and> pdfFolder (snd (main env sched w)) = pdfFolder w1
              \<and> is_dir (compressedFolder w1) \<and> is_dir (pdfFolder w1))
       \<and> (\<forall>e w1 w2. analyzeAndCompressImages env (log LogStart w) = (Inr (), w1)
                     \<and> createPDFsFromImages env sched w1 = (Inl e, w2) \<longrightarrow>
              fst (main env sched w) = GenerationFailed e
              \<and> compressedFolder (snd (main env sched w)) = compressedFolder w2
              \<and> pdfFolder (snd (main env sched w)) = pdfFolder w2
              \<and> is_dir (compressedFolder w2) \<and> is_dir (pdfFolder w2))
       \<and> (\<forall>e w1 pdfs w2 w3. analyzeAndCompressImages env (log LogStart w) = (Inr (), w1)
                     \<and> createPDFsFromImages env sched w1 = (Inr pdfs, w2)
                     \<and> mergePDFs env pdfs w2 = (Inl e, w3) \<longrightarrow>
              fst (main env sched w) = MergeFailed e
              \<and> compressedFolder (snd (main env sched w)) = compressedFolder w3
              \<and> pdfFolder (snd (main env sched w)) = pdfFolder w3
              \<and> is_dir (compressedFolder w3) \<and> is_dir (pdfFolder w3))"
proof -
  let ?w0 = "log LogStart w"
  obtain r1 w1 where a: "analyzeAndCompressImages env ?w0 = (r1, w1)"
    by (cases "analyzeAndCompressImages env ?w0")
  have d1: "is_dir (compressedFolder w1)" "is_dir (pdfFolder w1)"
    using analyze_frame [of env ?w0] a assms by simp_all
  show ?thesis
  proof (cases r1)
    case (Inl e)
    then show ?thesis
      using a d1 is_dir_not_None [OF d1(1)] by (simp add: main_def)
  next
    case r1: (Inr x1)
    obtain r2 w2 where g: "createPDFsFromImages env sched w1 = (r2, w2)"
      by (cases "createPDFsFromImages env sched w1")
    have d2: "is_dir (compressedFolder w2)" "is_dir (pdfFolder w2)"
      using generate_frame [of env sched w1] g d1 by simp_all
    show ?thesis
    proof (cases r2)
      case (Inl e)
      then show ?thesis
        using a r1 g d2 is_dir_not_None [OF d2(1)] by (simp add: main_def)
    next
      case r2: (Inr pdfs)
      obtain r3 w3 where m: "mergePDFs env pdfs w2 = (r3, w3)"
        by (cases "mergePDFs env pdfs w2")
      have d3: "is_dir (compressedFolder w3)" "is_dir (pdfFolder w3)"
        using merge_frame [of env pdfs w2] m d2 by simp_all
      show ?thesis
      proof (cases r3)
        case (Inl e)
        then show ?thesis
          using a r1 g r2 m d3 is_dir_not_None [OF d3(1)] by (simp add: main_def)
      next
        case (Inr x3)
        then show ?thesis
          using a r1 g r2 m deleteFolder_is_dir [OF d3(1)] deleteFolder_is_dir [OF d3(2)]
          by (simp add: main_def log_def)
      qed
    qed
  qed
qed

lemma demo_norm_one:
  "analyzeAndCompressImages demo_env
     \<lparr>inputFolder = Some (Dir [(''a.jpg'', File [7,2,3])]),
      compressedFolder = Some (Dir []), pdfFolder = Some (Dir []),
      finalPDF = fp, printed = [LogStart]\<rparr>
   = (Inr (), \<lparr>inputFolder = Some (Dir [(''a.jpg'', File [7,2,3])]),
      compressedFolder = Some (Dir [(''a.jpg'', File [7,2,3])]), pdfFolder = Some (Dir []),
      finalPDF = fp, printed = [LogStart, LogCopied ''a.jpg'']\<rparr>)"
  by (simp add: norm_defs fs_defs demo_env_def)

lemma demo_merge_fails:
  "mergePDFs demo_env [Pdf ''IMG_BANK_ACR_2024-01-01_output_1.pdf'']
      \<lparr>inputFolder = i, compressedFolder = c,
      pdfFolder = Some (Dir [(''IMG_BANK_ACR_2024-01-01_output_1.pdf'', File [Suc 0])]),
      finalPDF = Some (Dir []), printed = l\<rparr>
   = (Inl EISDIR, \<lparr>inputFolder = i, compressedFolder = c,
      pdfFolder = Some (Dir [(''IMG_BANK_ACR_2024-01-01_output_1.pdf'', File [Suc 0])]),
      finalPDF = Some (Dir []), printed = l\<rparr>)"
  by (simp add: mergePDFs_def PDFDocument_save_def saved_pages_def fs_defs demo_env_def)

lemma demo_run_merge_fails:
  "main demo_env [0]
     \<lparr>inputFolder = Some (Dir [(''a.jpg'', File [7,2,3])]),
      compressedFolder = Some (Dir []), pdfFolder = Some (Dir []),
      finalPDF = Some (Dir []), printed = []\<rparr>
   = (MergeFailed EISDIR,
      \<lparr>inputFolder = Some (Dir [(''a.jpg'', File [7,2,3])]),
       compressedFolder = Some (Dir [(''a.jpg'', File [7,2,3])]),
       pdfFolder = Some (Dir [(''IMG_BANK_ACR_2024-01-01_output_1.pdf'', File [Suc 0])]),
       finalPDF = Some (Dir []),
       printed = [LogStart, LogCopied ''a.jpg'',
                  LogGenerated [Pdf ''IMG_BANK_ACR_2024-01-01_output_1.pdf''],
                  LogFatal EISDIR]\<rparr>)"
  by (simp add: main_def log_def demo_norm_one demo_gen demo_merge_fails caught_def)

theorem cleanup_gating_witness:
  "fst (main demo_env [0] (init (demo_world [(''a.jpg'', File [7,2,3]), (''bad.png'', File [])])))
     = Succeeded
   \<and> compressedFolder (snd (main demo_env [0]
         (init (demo_world [(''a.jpg'', File [7,2,3]), (''bad.png'', File [])])))) = None
   \<and> pdfFolder (snd (main demo_env [0]
         (init (demo_world [(''a.jpg'', File [7,2,3]), (''bad.png'', File [])])))) = None
   \<and> fst (main demo_env [0]
            \<lparr>inputFolder = Some (Dir [(''a.jpg'', File [7,2,3])]),
             compressedFolder = Some (Dir []), pdfFolder = Some (Dir []),
             finalPDF = Some (Dir []), printed = []\<rparr>) = MergeFailed EISDIR
   \<and> compressedFolder (snd (main demo_env [0]
            \<lparr>inputFolder = Some (Dir [(''a.jpg'', File [7,2,3])]),
             compressedFolder = Some (Dir []), pdfFolder = Some (Dir []),
             finalPDF = Some (Dir []), printed = []\<rparr>)) \<noteq> None
   \<and> pdfFolder (snd (main demo_env [0]
            \<lparr>inputFolder = Some (Dir [(''a.jpg'', File [7,2,3])]),
             compressedFolder = Some (Dir []), pdfFolder = Some (Dir []),
             finalPDF = Some (Dir []), printed = []\<rparr>)) \<noteq> None"
proof -
  let ?w = "init (demo_world [(''a.jpg'', File [7,2,3]), (''bad.png'', File [])])"
  let ?v = "\<lparr>inputFolder = Some (Dir [(''a.jpg'', File [7,2,3])]),
             compressedFolder = Some (Dir []), pdfFolder = Some (Dir []),
             finalPDF = Some (Dir []), printed = []\<rparr>"
  have dw: "is_dir (compressedFolder ?w)" "is_dir (pdfFolder ?w)"
    by (simp_all add: demo_init is_dir_def)
  have dv: "is_dir (compressedFolder ?v)" "is_dir (pdfFolder ?v)"
    by (simp_all add: is_dir_def)
  have sw: "fst (main demo_env [0] ?w) = Succeeded"
    by (simp add: demo_run_invalid)
  have sv: "fst (main demo_env [0] ?v) = MergeFailed EISDIR"
    by (simp add: demo_run_merge_fails)
  from cleanup_gating [OF dw, of demo_env "[0]"] sw
  have "compressedFolder (snd (main demo_env [0] ?w)) = None
        \<and> pdfFolder (snd (main demo_env [0] ?w)) = None"
    by blast
  moreover from cleanup_gating [OF dv, of demo_env "[0]"]
  have "(fst (main demo_env [0] ?v) = Succeeded)
          = (compressedFolder (snd (main demo_env [0] ?v)) = None
             \<and> pdfFolder (snd (main demo_env [0] ?v)) = None)"
    by blast
  moreover have "compressedFolder (snd (main demo_env [0] ?v)) \<noteq> None
                 \<and> pdfFolder (snd (main demo_env [0] ?v)) \<noteq> None"
    by (simp add: demo_run_merge_fails)
  ultimately show ?thesis
    using sw sv by blast
qed

section \<open>Properties of the parallel generation\<close>

lemma chunk_tasks_indices:
  "map snd (chunk_tasks files) = [1 ..< Suc (length (chunk_tasks files))]"
proof (rule nth_equalityI)
  show "length (map snd (chunk_tasks files)) = length [1 ..< Suc (length (chunk_tasks files))]"
    by (simp del: upt_Suc)
next
  fix k assume "k < length (map snd (chunk_tasks files))"
  then have k: "k < length (chunk_loop files 0)" by (simp add: chunk_tasks_def)
  from chunk_loop_nth [OF k] have "snd (chunk_tasks files ! k) = k + 1"
    by (simp add: chunk_tasks_def)
  then show "map snd (chunk_tasks files) ! k = [1 ..< Suc (length (chunk_tasks files))] ! k"
    using k by (simp add: chunk_tasks_def nth_upt del: upt_Suc)
qed

lemma digit_inj: "a < 10 \<Longrightarrow> b < 10 \<Longrightarrow> digit a = digit b \<Longrightarrow> a = b"
proof -
  assume a: "a < 10" and b: "b < 10" and e: "digit a = digit b"
  have d: "distinct ''0123456789''" by simp
  have "a < length ''0123456789''" "b < length ''0123456789''" using a b by simp_all
  with d e show "a = b" unfolding digit_def by (simp only: nth_eq_iff_index_eq)
qed

lemma decimal_nonempty: "decimal n \<noteq> []"
  by (subst decimal.simps) simp

lemma decimal_inj: "decimal m = decimal n \<Longrightarrow> m = n"
proof (induction m arbitrary: n rule: decimal.induct)
  case (1 m)
  show ?case
  proof (cases "m < 10")
    case True
    then have dm: "decimal m = [digit m]" by (rule decimal_digit)
    show ?thesis
    proof (cases "n < 10")
      case n: True
      then have "decimal n = [digit n]" by (rule decimal_digit)
      with dm "1.prems" have "digit m = digit n" by simp
      then show ?thesis using True n by (rule digit_inj [rotated 2])
    next
      case False
      then have "decimal n = decimal (n div 10) @ [digit (n mod 10)]"
        by (subst decimal.simps) simp
      with dm "1.prems" decimal_nonempty [of "n div 10"] show ?thesis by simp
    qed
  next
    case False
    then have dm: "decimal m = decimal (m div 10) @ [digit (m mod 10)]"
      by (subst decimal.simps) simp
    show ?thesis
    proof (cases "n < 10")
      case True
      then have "decimal n = [digit n]" by (rule decimal_digit)
      with dm "1.prems" decimal_nonempty [of "m div 10"] show ?thesis by simp
    next
      case n: False
      then have "decimal n = decimal (n div 10) @ [digit (n mod 10)]"
        by (subst decimal.simps) simp
      with dm "1.prems" have e: "decimal (m div 10) = decimal (n div 10)"
        and d: "digit (m mod 10) = digit (n mod 10)" by simp_all
      from "1.IH" [OF False e] have q: "m div 10 = n div 10" .
      have r: "m mod 10 = n mod 10"
        by (rule digit_inj [OF _ _ d]) simp_all
      from q r show ?thesis by (metis div_mult_mod_eq)
    qed
  qed
qed

lemma pdf_name_inj: "pdf_name env a = pdf_name env b \<Longrightarrow> a = b"
  by (simp add: pdf_name_def decimal_inj)

lemma fold_slots:
  assumes "length sl = length vals"
  shows "length (fold (\<lambda>k sl. if k < length sl then sl[k := Some (vals ! k)] else sl) sched sl)
           = length vals
       \<and> (\<forall>k < length vals.
             fold (\<lambda>k sl. if k < length sl then sl[k := Some (vals ! k)] else sl) sched sl ! k
               = (if k \<in> set sched then Some (vals ! k) else sl ! k))"
  using assms
proof (induction sched arbitrary: sl)
  case Nil
  then show ?case by simp
next
  case (Cons j rest)
  let ?sl = "if j < length sl then sl[j := Some (vals ! j)] else sl"
  have l: "length ?sl = length vals" using Cons.prems by simp
  from Cons.IH [OF l] show ?case
    using Cons.prems by (auto simp: nth_list_update)
qed

lemma promise_all_complete:
  assumes "set sched = {0..<length vals}"
  shows "promise_all vals sched = Some vals"
proof -
  let ?f = "\<lambda>k sl. if k < length sl then sl[k := Some (vals ! k)] else sl"
  let ?slots = "fold ?f sched (replicate (length vals) None)"
  from fold_slots [of "replicate (length vals) None" vals sched]
  have len: "length ?slots = length vals"
    and nth: "\<forall>k < length vals. ?slots ! k = (if k \<in> set sched then Some (vals ! k) else None)"
    by simp_all
  have all: "\<forall>k < length vals. ?slots ! k = Some (vals ! k)"
    using nth assms by simp
  have none: "None \<notin> set ?slots"
  proof
    assume "None \<in> set ?slots"
    then obtain k where "k < length ?slots" and "?slots ! k = None"
      by (auto simp: in_set_conv_nth)
    with all len show False by simp
  qed
  have "map the ?slots = vals"
    by (rule nth_equalityI) (simp_all add: len all)
  with none show ?thesis
    by (simp add: promise_all_def Let_def)
qed

lemma can_write_put_file_iff:
  "put_file folder g b = Inr d \<Longrightarrow> can_write d n = (n = g \<or> can_write folder n)"
  by (auto simp: can_write_def put_file_def update_conv'
           split: option.splits node.splits if_splits)

lemma finish_step:
  assumes "k < length tasks" and "outputPDF (tasks ! k) = Pdf name"
  shows "finish tasks k w =
           (case put_file (pdfFolder w) name (piped (tasks ! k)) of
              Inl e \<Rightarrow> (Inl Uncaught, w)
            | Inr d \<Rightarrow> (Inr (), w\<lparr>pdfFolder := d\<rparr>))"
  using assms by (simp add: finish_def split: sum.splits)

lemma can_write_fails:
  assumes "\<not> can_write folder name"
  shows "\<exists>e. put_file folder name b = Inl e"
proof (cases folder)
  case None
  then show ?thesis by (simp add: put_file_def)
next
  case (Some n)
  show ?thesis
  proof (cases n)
    case (File c)
    with Some show ?thesis by (simp add: put_file_def)
  next
    case (Dir es)
    with Some assms obtain sub where "map_of es name = Some (Dir sub)"
      by (auto simp: can_write_def split: option.splits node.splits)
    with Some Dir show ?thesis by (simp add: put_file_def)
  qed
qed

lemma finish_all_writable:
  assumes nm: "\<forall>k < length tasks. outputPDF (tasks ! k) = Pdf (nm k)"
    and inj: "\<forall>j < length tasks. \<forall>k < length tasks. nm j = nm k \<longrightarrow> j = k"
    and bound: "\<forall>k \<in> set sched. k < length tasks"
    and cw: "\<forall>k < length tasks. can_write (pdfFolder w) (nm k)"
  shows "\<exists>w'. for_each (finish tasks) sched w = (Inr (), w')
            \<and> inputFolder w' = inputFolder w \<and> compressedFolder w' = compressedFolder w
            \<and> finalPDF w' = finalPDF w \<and> printed w' = printed w
            \<and> is_dir (pdfFolder w') = is_dir (pdfFolder w)
            \<and> (\<not> is_dir (pdfFolder w) \<longrightarrow> pdfFolder w' = pdfFolder w)
            \<and> (\<forall>k \<in> set sched. entry (pdfFolder w') (nm k) = Some (File (piped (tasks ! k))))
            \<and> (\<forall>m. m \<notin> nm ` set sched \<longrightarrow> entry (pdfFolder w') m = entry (pdfFolder w) m)"
  using bound cw
proof (induction sched arbitrary: w)
  case Nil
  then show ?case by simp
next
  case (Cons j rest)
  from Cons.prems(1) have j: "j < length tasks" by simp
  with nm have oj: "outputPDF (tasks ! j) = Pdf (nm j)" by simp
  from Cons.prems(2) j have "can_write (pdfFolder w) (nm j)" by simp
  from put_file_can_write [OF this, of "piped (tasks ! j)"]
  obtain d where d: "put_file (pdfFolder w) (nm j) (piped (tasks ! j)) = Inr d"
    and ej: "entry d (nm j) = Some (File (piped (tasks ! j)))" by blast
  let ?u = "w\<lparr>pdfFolder := d\<rparr>"
  have step: "finish tasks j w = (Inr (), ?u)"
    using finish_step [OF j oj, of w] d by simp
  have cwu: "\<forall>k < length tasks. can_write (pdfFolder ?u) (nm k)"
    using Cons.prems(2) can_write_put_file_iff [OF d] by simp
  have bu: "\<forall>k \<in> set rest. k < length tasks" using Cons.prems(1) by simp
  from Cons.IH [OF bu cwu] obtain w' where
    run: "for_each (finish tasks) rest ?u = (Inr (), w')"
    and fr: "inputFolder w' = inputFolder w" "compressedFolder w' = compressedFolder w"
            "finalPDF w' = finalPDF w" "printed w' = printed w"
    and dir: "is_dir (pdfFolder w') = is_dir d"
    and wr: "\<forall>k \<in> set rest. entry (pdfFolder w') (nm k) = Some (File (piped (tasks ! k)))"
    and keep: "\<forall>m. m \<notin> nm ` set rest \<longrightarrow> entry (pdfFolder w') m = entry d m"
    by auto
  have dd: "is_dir d = is_dir (pdfFolder w)" "is_dir (pdfFolder w)"
    using is_dir_put_file [OF d] by simp_all
  have other: "entry d m = entry (pdfFolder w) m" if "m \<noteq> nm j" for m
    using entry_put_file [OF d, of m] that by simp
  have wj: "entry (pdfFolder w') (nm j) = Some (File (piped (tasks ! j)))"
  proof (cases "j \<in> set rest")
    case True
    with wr show ?thesis by simp
  next
    case False
    have "nm j \<notin> nm ` set rest"
    proof
      assume "nm j \<in> nm ` set rest"
      then obtain k where k: "k \<in> set rest" and e: "nm j = nm k" by auto
      with bu inj j have "j = k" by simp
      with k False show False by simp
    qed
    with keep ej show ?thesis by simp
  qed
  have all: "\<forall>k \<in> set (j # rest). entry (pdfFolder w') (nm k) = Some (File (piped (tasks ! k)))"
    using wj wr by simp
  have frame: "\<forall>m. m \<notin> nm ` set (j # rest) \<longrightarrow> entry (pdfFolder w') m = entry (pdfFolder w) m"
    using keep other by auto
  have "for_each (finish tasks) (j # rest) w = (Inr (), w')"
    using step run by simp
  then show ?case
    using fr dir dd all frame by blast
qed

lemma finish_not_writable:
  assumes nm: "\<forall>k < length tasks. outputPDF (tasks ! k) = Pdf (nm k)"
    and inj: "\<forall>j < length tasks. \<forall>k < length tasks. nm j = nm k \<longrightarrow> j = k"
    and bound: "\<forall>k \<in> set sched. k < length tasks"
    and bad: "\<exists>k \<in> set sched. \<not> can_write (pdfFolder w) (nm k)"
  shows "fst (for_each (finish tasks) sched w) = Inl Uncaught"
  using bound bad
proof (induction sched arbitrary: w)
  case Nil
  then show ?case by simp
next
  case (Cons j rest)
  from Cons.prems(1) have j: "j < length tasks" by simp
  with nm have oj: "outputPDF (tasks ! j) = Pdf (nm j)" by simp
  show ?case
  proof (cases "can_write (pdfFolder w) (nm j)")
    case False
    from can_write_fails [OF this, of "piped (tasks ! j)"]
    obtain e where "put_file (pdfFolder w) (nm j) (piped (tasks ! j)) = Inl e" by blast
    then have "finish tasks j w = (Inl Uncaught, w)"
      using finish_step [OF j oj, of w] by simp
    then show ?thesis by simp
  next
    case True
    from put_file_can_write [OF this, of "piped (tasks ! j)"]
    obtain d where d: "put_file (pdfFolder w) (nm j) (piped (tasks ! j)) = Inr d" by blast
    let ?u = "w\<lparr>pdfFolder := d\<rparr>"
    have step: "finish tasks j w = (Inr (), ?u)"
      using finish_step [OF j oj, of w] d by simp
    from Cons.prems(2) True obtain k where k: "k \<in> set rest"
      and nk: "\<not> can_write (pdfFolder w) (nm k)" by auto
    have "nm k \<noteq> nm j" using nk True by auto
    then have "\<not> can_write (pdfFolder ?u) (nm k)"
      using can_write_put_file_iff [OF d, of "nm k"] nk by simp
    with k have bad': "\<exists>k \<in> set rest. \<not> can_write (pdfFolder ?u) (nm k)" by blast
    have bu: "\<forall>k \<in> set rest. k < length tasks" using Cons.prems(1) by simp
    from Cons.IH [OF bu bad'] show ?thesis
      using step by simp
  qed
qed

lemma outputPDF_createPDF [simp]:
  "outputPDF (createPDF env w chunk pdfIndex) = Pdf (pdf_name env pdfIndex)"
  by (simp add: createPDF_def Let_def)

lemma generation_cases:
  assumes rd: "readdirSync (compressedFolder w) = Inr names"
    and co: "completion_order (task_count env w) sched"
  defines "tasks \<equiv> map (\<lambda>(chunk, pdfIndex). createPDF env w chunk pdfIndex)
                       (chunk_tasks (filter (is_image_name env) names))"
  defines "n \<equiv> task_count env w"
  shows "((\<forall>k < n. can_write (pdfFolder w) (pdf_name env (Suc k))) \<longrightarrow>
           (\<exists>w2. createPDFsFromImages env sched w
                    = (Inr (map (\<lambda>k. Pdf (pdf_name env k)) [1 ..< Suc n]), w2)
              \<and> inputFolder w2 = inputFolder w \<and> compressedFolder w2 = compressedFolder w
              \<and> finalPDF w2 = finalPDF w
              \<and> printed w2 = printed w @ concat (map lines tasks)
                                @ [LogGenerated (map (\<lambda>k. Pdf (pdf_name env k)) [1 ..< Suc n])]
              \<and> is_dir (pdfFolder w2) = is_dir (pdfFolder w)
              \<and> (\<not> is_dir (pdfFolder w) \<longrightarrow> pdfFolder w2 = pdfFolder w)
              \<and> (\<forall>k < n. entry (pdfFolder w2) (pdf_name env (Suc k))
                            = Some (File (piped (tasks ! k))))
              \<and> (\<forall>m. m \<notin> (\<lambda>k. pdf_name env (Suc k)) ` {0..<n}
                       \<longrightarrow> entry (pdfFolder w2) m = entry (pdfFolder w) m)))
       \<and> (\<not> (\<forall>k < n. can_write (pdfFolder w) (pdf_name env (Suc k))) \<longrightarrow>
            fst (createPDFsFromImages env sched w) = Inl Uncaught
            \<and> inputFolder (snd (createPDFsFromImages env sched w)) = inputFolder w
            \<and> compressedFolder (snd (createPDFsFromImages env sched w)) = compressedFolder w
            \<and> finalPDF (snd (createPDFsFromImages env sched w)) = finalPDF w
            \<and> printed (snd (createPDFsFromImages env sched w))
                = printed w @ concat (map lines tasks))"
proof -
  let ?cs = "chunk_tasks (filter (is_image_name env) names)"
  let ?nm = "\<lambda>k. pdf_name env (Suc k)"
  let ?w1 = "w\<lparr>printed := printed w @ concat (map lines tasks)\<rparr>"
  have n: "n = length tasks" "n = length ?cs"
    using rd by (simp_all add: n_def tasks_def task_count_def)
  have idx: "snd (?cs ! k) = Suc k" if "k < n" for k
  proof -
    have "map snd ?cs ! k = [1 ..< Suc (length ?cs)] ! k"
      by (simp only: chunk_tasks_indices [symmetric])
    then show ?thesis using that n by (simp add: nth_upt del: upt_Suc)
  qed
  have nm: "\<forall>k < length tasks. outputPDF (tasks ! k) = Pdf (?nm k)"
  proof (intro allI impI)
    fix k assume k: "k < length tasks"
    then have "tasks ! k = createPDF env w (fst (?cs ! k)) (snd (?cs ! k))"
      by (simp add: tasks_def case_prod_beta)
    then show "outputPDF (tasks ! k) = Pdf (?nm k)"
      using idx [of k] k n by simp
  qed
  have inj: "\<forall>j < length tasks. \<forall>k < length tasks. ?nm j = ?nm k \<longrightarrow> j = k"
    using pdf_name_inj [of env] by auto
  have sched: "set sched = {0..<n}"
    using co by (simp add: completion_order_def n_def)
  then have bound: "\<forall>k \<in> set sched. k < length tasks"
    using n by simp
  have paths: "map outputPDF tasks = map (\<lambda>k. Pdf (pdf_name env k)) [1 ..< Suc n]"
  proof (rule nth_equalityI)
    show "length (map outputPDF tasks) = length (map (\<lambda>k. Pdf (pdf_name env k)) [1 ..< Suc n])"
      using n by (simp del: upt_Suc)
  next
    fix k assume "k < length (map outputPDF tasks)"
    then have k: "k < length tasks" by simp
    then show "map outputPDF tasks ! k = map (\<lambda>k. Pdf (pdf_name env k)) [1 ..< Suc n] ! k"
      using nm n by (simp add: nth_upt del: upt_Suc)
  qed
  have unfold: "createPDFsFromImages env sched w =
      (case for_each (finish tasks) sched ?w1 of
         (Inl e, w2) \<Rightarrow> (Inl e, w2)
       | (Inr u, w2) \<Rightarrow>
           (case promise_all (map outputPDF tasks) sched of
              None \<Rightarrow> (Inl NeverSettled, w2)
            | Some generatedPDFs \<Rightarrow> (Inr generatedPDFs, log (LogGenerated generatedPDFs) w2)))"
    unfolding createPDFsFromImages_def tasks_def Let_def rd by simp
  have pa: "promise_all (map outputPDF tasks) sched = Some (map outputPDF tasks)"
    by (rule promise_all_complete) (simp add: sched n)
  have good: "\<exists>w2. createPDFsFromImages env sched w
                    = (Inr (map (\<lambda>k. Pdf (pdf_name env k)) [1 ..< Suc n]), w2)
              \<and> inputFolder w2 = inputFolder w \<and> compressedFolder w2 = compressedFolder w
              \<and> finalPDF w2 = finalPDF w
              \<and> printed w2 = printed w @ concat (map lines tasks)
                                @ [LogGenerated (map (\<lambda>k. Pdf (pdf_name env k)) [1 ..< Suc n])]
              \<and> is_dir (pdfFolder w2) = is_dir (pdfFolder w)
              \<and> (\<not> is_dir (pdfFolder w) \<longrightarrow> pdfFolder w2 = pdfFolder w)
              \<and> (\<forall>k < n. entry (pdfFolder w2) (pdf_name env (Suc k))
                            = Some (File (piped (tasks ! k))))
              \<and> (\<forall>m. m \<notin> ?nm ` {0..<n} \<longrightarrow> entry (pdfFolder w2) m = entry (pdfFolder w) m)"
    if ok: "\<forall>k < n. can_write (pdfFolder w) (pdf_name env (Suc k))"
  proof -
    have cw: "\<forall>k < length tasks. can_write (pdfFolder ?w1) (?nm k)"
      using ok n by simp
    from finish_all_writable [OF nm inj bound cw] obtain w' where
      run: "for_each (finish tasks) sched ?w1 = (Inr (), w')"
      and fr: "inputFolder w' = inputFolder w" "compressedFolder w' = compressedFolder w"
              "finalPDF w' = finalPDF w" "printed w' = printed w @ concat (map lines tasks)"
      and dir: "is_dir (pdfFolder w') = is_dir (pdfFolder w)"
              "\<not> is_dir (pdfFolder w) \<longrightarrow> pdfFolder w' = pdfFolder w"
      and wr: "\<forall>k \<in> set sched. entry (pdfFolder w') (?nm k) = Some (File (piped (tasks ! k)))"
      and keep: "\<forall>m. m \<notin> ?nm ` set sched \<longrightarrow> entry (pdfFolder w') m = entry (pdfFolder w) m"
      by auto
    let ?w2 = "log (LogGenerated (map outputPDF tasks)) w'"
    have "createPDFsFromImages env sched w = (Inr (map outputPDF tasks), ?w2)"
      by (simp add: unfold run pa)
    then show ?thesis
      using fr dir wr keep sched paths by auto
  qed
  have bad: "fst (createPDFsFromImages env sched w) = Inl Uncaught
            \<and> inputFolder (snd (createPDFsFromImages env sched w)) = inputFolder w
            \<and> compressedFolder (snd (createPDFsFromImages env sched w)) = compressedFolder w
            \<and> finalPDF (snd (createPDFsFromImages env sched w)) = finalPDF w
            \<and> printed (snd (createPDFsFromImages env sched w))
                = printed w @ concat (map lines tasks)"
    if nok: "\<not> (\<forall>k < n. can_write (pdfFolder w) (pdf_name env (Suc k)))"
  proof -
    from nok obtain k where "k < n" and "\<not> can_write (pdfFolder w) (?nm k)" by blast
    then have b: "\<exists>k \<in> set sched. \<not> can_write (pdfFolder ?w1) (?nm k)"
      using sched by auto
    obtain r u where run: "for_each (finish tasks) sched ?w1 = (r, u)"
      by (cases "for_each (finish tasks) sched ?w1")
    from finish_not_writable [OF nm inj bound b] run have r: "r = Inl Uncaught" by simp
    have pdf: "\<forall>t \<in> set tasks. \<exists>n. outputPDF t = Pdf n"
      unfolding tasks_def by (rule tasks_are_pdf)
    from for_each_finish_frame [OF pdf, of sched ?w1] run
    have "inputFolder u = inputFolder w" "compressedFolder u = compressedFolder w"
      "finalPDF u = finalPDF w" "printed u = printed w @ concat (map lines tasks)"
      by simp_all
    then show ?thesis
      by (simp add: unfold run r)
  qed
  show ?thesis
    using good bad by blast
qed

lemma generation_two_orders:
  assumes c1: "completion_order (task_count env w) s1"
    and c2: "completion_order (task_count env w) s2"
  shows "fst (createPDFsFromImages env s1 w) = fst (createPDFsFromImages env s2 w)
       \<and> inputFolder (snd (createPDFsFromImages env s1 w))
           = inputFolder (snd (createPDFsFromImages env s2 w))
       \<and> compressedFolder (snd (createPDFsFromImages env s1 w))
           = compressedFolder (snd (createPDFsFromImages env s2 w))
       \<and> finalPDF (snd (createPDFsFromImages env s1 w))
           = finalPDF (snd (createPDFsFromImages env s2 w))
       \<and> printed (snd (createPDFsFromImages env s1 w))
           = printed (snd (createPDFsFromImages env s2 w))
       \<and> (\<forall>paths. fst (createPDFsFromImages env s1 w) = Inr paths \<longrightarrow>
             paths = map (\<lambda>k. Pdf (pdf_name env k)) [1 ..< Suc (task_count env w)]
             \<and> (\<forall>m. entry (pdfFolder (snd (createPDFsFromImages env s1 w))) m
                     = entry (pdfFolder (snd (createPDFsFromImages env s2 w))) m)
             \<and> is_dir (pdfFolder (snd (createPDFsFromImages env s1 w)))
                 = is_dir (pdfFolder (snd (createPDFsFromImages env s2 w)))
             \<and> (\<not> is_dir (pdfFolder (snd (createPDFsFromImages env s1 w))) \<longrightarrow>
                  pdfFolder (snd (createPDFsFromImages env s1 w))
                    = pdfFolder (snd (createPDFsFromImages env s2 w))))"
proof (cases "readdirSync (compressedFolder w)")
  case (Inl e)
  then show ?thesis by (simp add: createPDFsFromImages_def)
next
  case (Inr names)
  let ?n = "task_count env w"
  let ?nm = "\<lambda>k. pdf_name env (Suc k)"
  let ?tasks = "map (\<lambda>(chunk, pdfIndex). createPDF env w chunk pdfIndex)
                  (chunk_tasks (filter (is_image_name env) names))"
  note g1 = generation_cases [OF Inr c1]
  note g2 = generation_cases [OF Inr c2]
  show ?thesis
  proof (cases "\<forall>k < ?n. can_write (pdfFolder w) (?nm k)")
    case False
    with g1 g2 show ?thesis by simp
  next
    case True
    with g1 obtain a where a: "createPDFsFromImages env s1 w
                    = (Inr (map (\<lambda>k. Pdf (pdf_name env k)) [1 ..< Suc ?n]), a)"
      and fa: "inputFolder a = inputFolder w" "compressedFolder a = compressedFolder w"
              "finalPDF a = finalPDF w"
              "printed a = printed w @ concat (map lines ?tasks)
                                @ [LogGenerated (map (\<lambda>k. Pdf (pdf_name env k)) [1 ..< Suc ?n])]"
      and da: "is_dir (pdfFolder a) = is_dir (pdfFolder w)"
              "\<not> is_dir (pdfFolder w) \<longrightarrow> pdfFolder a = pdfFolder w"
      and wa: "\<forall>k < ?n. entry (pdfFolder a) (?nm k) = Some (File (piped (?tasks ! k)))"
      and ka: "\<forall>m. m \<notin> ?nm ` {0..<?n} \<longrightarrow> entry (pdfFolder a) m = entry (pdfFolder w) m"
      by blast
    from True g2 obtain b where b: "createPDFsFromImages env s2 w
                    = (Inr (map (\<lambda>k. Pdf (pdf_name env k)) [1 ..< Suc ?n]), b)"
      and fb: "inputFolder b = inputFolder w" "compressedFolder b = compressedFolder w"
              "finalPDF b = finalPDF w"
              "printed b = printed w @ concat (map lines ?tasks)
                                @ [LogGenerated (map (\<lambda>k. Pdf (pdf_name env k)) [1 ..< Suc ?n])]"
      and db: "is_dir (pdfFolder b) = is_dir (pdfFolder w)"
              "\<not> is_dir (pdfFolder w) \<longrightarrow> pdfFolder b = pdfFolder w"
      and wb: "\<forall>k < ?n. entry (pdfFolder b) (?nm k) = Some (File (piped (?tasks ! k)))"
      and kb: "\<forall>m. m \<notin> ?nm ` {0..<?n} \<longrightarrow> entry (pdfFolder b) m = entry (pdfFolder w) m"
      by blast
    have ent: "entry (pdfFolder a) m = entry (pdfFolder b) m" for m
    proof (cases "m \<in> ?nm ` {0..<?n}")
      case True
      then obtain k where "k < ?n" and "m = ?nm k" by auto
      with wa wb show ?thesis by simp
    next
      case False
      with ka kb show ?thesis by simp
    qed
    show ?thesis
      using a b fa fb da db ent by simp
  qed
qed

lemma deleteFolder_same:
  "is_dir a = is_dir b \<Longrightarrow> (\<not> is_dir a \<longrightarrow> a = b) \<Longrightarrow> deleteFolder a = deleteFolder b"
  using deleteFolder_is_dir by (cases "is_dir a") auto

lemma generation_two_orders_ok:
  assumes c1: "completion_order (task_count env w) s1"
    and c2: "completion_order (task_count env w) s2"
    and ok: "fst (createPDFsFromImages env s1 w) = Inr paths"
  shows "paths = map (\<lambda>k. Pdf (pdf_name env k)) [1 ..< Suc (task_count env w)]"
    and "\<forall>m. entry (pdfFolder (snd (createPDFsFromImages env s1 w))) m
             = entry (pdfFolder (snd (createPDFsFromImages env s2 w))) m"
    and "deleteFolder (pdfFolder (snd (createPDFsFromImages env s1 w)))
           = deleteFolder (pdfFolder (snd (createPDFsFromImages env s2 w)))"
proof -
  note g = generation_two_orders [OF c1 c2]
  show "paths = map (\<lambda>k. Pdf (pdf_name env k)) [1 ..< Suc (task_count env w)]"
    using g ok by blast
  show "\<forall>m. entry (pdfFolder (snd (createPDFsFromImages env s1 w))) m
             = entry (pdfFolder (snd (createPDFsFromImages env s2 w))) m"
    using g ok by blast
  have "is_dir (pdfFolder (snd (createPDFsFromImages env s1 w)))
           = is_dir (pdfFolder (snd (createPDFsFromImages env s2 w)))"
    using g ok by blast
  moreover have "\<not> is_dir (pdfFolder (snd (createPDFsFromImages env s1 w))) \<longrightarrow>
           pdfFolder (snd (createPDFsFromImages env s1 w))
             = pdfFolder (snd (createPDFsFromImages env s2 w))"
    using g ok by blast
  ultimately show "deleteFolder (pdfFolder (snd (createPDFsFromImages env s1 w)))
           = deleteFolder (pdfFolder (snd (createPDFsFromImages env s2 w)))"
    by (rule deleteFolder_same)
qed

lemma generation_two_orders_frame:
  assumes c1: "completion_order (task_count env w) s1"
    and c2: "completion_order (task_count env w) s2"
  shows "fst (createPDFsFromImages env s1 w) = fst (createPDFsFromImages env s2 w)"
    and "inputFolder (snd (createPDFsFromImages env s1 w))
           = inputFolder (snd (createPDFsFromImages env s2 w))"
    and "compressedFolder (snd (createPDFsFromImages env s1 w))
           = compressedFolder (snd (createPDFsFromImages env s2 w))"
    and "finalPDF (snd (createPDFsFromImages env s1 w))
           = finalPDF (snd (createPDFsFromImages env s2 w))"
    and "printed (snd (createPDFsFromImages env s1 w))
           = printed (snd (createPDFsFromImages env s2 w))"
  using generation_two_orders [OF c1 c2] by blast+

lemma read_same_entries:
  assumes "inputFolder a = inputFolder b" and "compressedFolder a = compressedFolder b"
    and "finalPDF a = finalPDF b"
    and "\<forall>m. entry (pdfFolder a) m = entry (pdfFolder b) m"
  shows "readFileSync a p = readFileSync b p"
  using assms by (cases p) (simp_all add: readFileSync_def)

lemma merge_loop_same_reads:
  assumes "\<forall>p. readFileSync a p = readFileSync b p"
  shows "merge_loop env a ps merged = merge_loop env b ps merged"
  using assms
  by (induction ps arbitrary: merged) (simp_all split: sum.splits option.splits)

lemma mergePDFs_same_reads:
  assumes "\<forall>p. readFileSync a p = readFileSync b p" and "finalPDF a = finalPDF b"
  shows "fst (mergePDFs env ps a) = fst (mergePDFs env ps b)
       \<and> finalPDF (snd (mergePDFs env ps a)) = finalPDF (snd (mergePDFs env ps b))
       \<and> (printed a = printed b \<longrightarrow>
            printed (snd (mergePDFs env ps a)) = printed (snd (mergePDFs env ps b)))"
  using merge_loop_same_reads [OF assms(1), of env ps "[]"] assms(2)
  by (auto simp: mergePDFs_def split: sum.splits option.splits node.splits)

lemma document_pages_same_reads:
  "readFileSync a p = readFileSync b p \<Longrightarrow> document_pages env a p = document_pages env b p"
  by (simp add: document_pages_def)

lemma printed_caught: "printed a = printed b \<Longrightarrow> printed (caught e a) = printed (caught e b)"
  by (simp add: caught_def log_def)

lemma main_two_orders:
  assumes c1: "completion_order (task_count env w) s1"
    and c2: "completion_order (task_count env w) s2"
    and w: "snd (analyzeAndCompressImages env (log LogStart w0)) = w"
  shows "fst (main env s1 w0) = fst (main env s2 w0)
       \<and> finalPDF (snd (main env s1 w0)) = finalPDF (snd (main env s2 w0))
       \<and> printed (snd (main env s1 w0)) = printed (snd (main env s2 w0))
       \<and> (fst (main env s1 w0) = Succeeded \<longrightarrow> snd (main env s1 w0) = snd (main env s2 w0))"
proof -
  obtain r1 where an: "analyzeAndCompressImages env (log LogStart w0) = (r1, w)"
    using w by (cases "analyzeAndCompressImages env (log LogStart w0)") simp
  show ?thesis
  proof (cases r1)
    case (Inl e)
    then show ?thesis using an by (simp add: main_def)
  next
    case r1: (Inr u1)
    obtain ra a where ga: "createPDFsFromImages env s1 w = (ra, a)"
      by (cases "createPDFsFromImages env s1 w")
    obtain rb b where gb: "createPDFsFromImages env s2 w = (rb, b)"
      by (cases "createPDFsFromImages env s2 w")
    note two = generation_two_orders_frame [OF c1 c2]
    have r: "ra = rb" and fr: "inputFolder a = inputFolder b"
      "compressedFolder a = compressedFolder b" "finalPDF a = finalPDF b" "printed a = printed b"
      using two by (simp_all add: ga gb)
    show ?thesis
    proof (cases rb)
      case (Inl e)
      then show ?thesis
        using an r1 ga gb r fr printed_caught [OF fr(4), of e] by (simp add: main_def)
    next
      case rb: (Inr paths)
      have oka: "fst (createPDFsFromImages env s1 w) = Inr paths"
        by (simp add: ga r rb)
      have ent: "\<forall>m. entry (pdfFolder a) m = entry (pdfFolder b) m"
        and dab: "deleteFolder (pdfFolder a) = deleteFolder (pdfFolder b)"
        using generation_two_orders_ok(2-3) [OF c1 c2 oka] by (simp_all add: ga gb)
      have reads: "\<forall>p. readFileSync a p = readFileSync b p"
        using read_same_entries [OF fr(1) fr(2) fr(3) ent] by simp
      obtain ma a3 where ma: "mergePDFs env paths a = (ma, a3)" by (cases "mergePDFs env paths a")
      obtain mb b3 where mb: "mergePDFs env paths b = (mb, b3)" by (cases "mergePDFs env paths b")
      from mergePDFs_same_reads [OF reads fr(3), of env paths] ma mb fr(4)
      have m: "ma = mb" and f3: "finalPDF a3 = finalPDF b3" and p3: "printed a3 = printed b3"
        by simp_all
      from merge_frame [of env paths a] merge_frame [of env paths b] ma mb fr
      have i3: "inputFolder a3 = inputFolder b3" and c3: "compressedFolder a3 = compressedFolder b3"
        and pa: "pdfFolder a3 = pdfFolder a" and pb: "pdfFolder b3 = pdfFolder b"
        by simp_all
      have dp: "deleteFolder (pdfFolder a3) = deleteFolder (pdfFolder b3)"
        using dab by (simp only: pa pb)
      show ?thesis
      proof (cases mb)
        case (Inl e)
        then show ?thesis
          using an r1 ga gb r rb ma mb m f3 printed_caught [OF p3, of e] by (simp add: main_def)
      next
        case mbr: (Inr u3)
        show ?thesis
        proof (cases "deleteFolder (compressedFolder b3)")
          case (Inl e)
          then show ?thesis
            using an r1 ga gb r rb ma mb m mbr c3 f3 printed_caught [OF p3, of e]
            by (simp add: main_def)
        next
          case dc: (Inr c)
          show ?thesis
          proof (cases "deleteFolder (pdfFolder b3)")
            case (Inl e)
            have "printed (caught e (a3\<lparr>compressedFolder := c\<rparr>))
                    = printed (caught e (b3\<lparr>compressedFolder := c\<rparr>))"
              by (rule printed_caught) (simp add: p3)
            then show ?thesis
              using an r1 ga gb r rb ma mb m mbr c3 f3 dc dp Inl
              by (simp add: main_def)
          next
            case (Inr p)
            have "a3\<lparr>compressedFolder := c, pdfFolder := p\<rparr>
                    = b3\<lparr>compressedFolder := c, pdfFolder := p\<rparr>"
              by (rule world.equality) (simp_all add: i3 f3 p3)
            then show ?thesis
              using an r1 ga gb r rb ma mb m mbr c3 dc dp Inr
              by (simp add: main_def)
          qed
        qed
      qed
    qed
  qed
qed

text \<open>
  C8. For any two orders in which the generation tasks can complete (each task once):
  createPDFsFromImages has the same outcome and prints the same; when it returns, the
  list it returns is that of the paths of the documents 1, 2, ..., n in ascending
  sequence index, every file reads the same in the two worlds, so every document has
  the same pages, the merge loop gives the same page list and mergePDFs writes the
  same final file. For the whole run: the two runs end in the same way, with the same
  final document and the same console, and, when they succeed, in the same world.
\<close>

theorem completion_order_independent:
  assumes "completion_order (task_count env w) s1"
    and "completion_order (task_count env w) s2"
  shows "fst (createPDFsFromImages env s1 w) = fst (createPDFsFromImages env s2 w)
       \<and> printed (snd (createPDFsFromImages env s1 w))
           = printed (snd (createPDFsFromImages env s2 w))
       \<and> (\<forall>paths. fst (createPDFsFromImages env s1 w) = Inr paths \<longrightarrow>
             paths = map (\<lambda>k. Pdf (pdf_name env k)) [1 ..< Suc (task_count env w)]
             \<and> (\<forall>p. readFileSync (snd (createPDFsFromImages env s1 w)) p
                     = readFileSync (snd (createPDFsFromImages env s2 w)) p)
             \<and> (\<forall>p. document_pages env (snd (createPDFsFromImages env s1 w)) p
                     = document_pages env (snd (createPDFsFromImages env s2 w)) p)
             \<and> merge_loop env (snd (createPDFsFromImages env s1 w)) paths []
                 = merge_loop env (snd (createPDFsFromImages env s2 w)) paths []
             \<and> fst (mergePDFs env paths (snd (createPDFsFromImages env s1 w)))
                 = fst (mergePDFs env paths (snd (createPDFsFromImages env s2 w)))
             \<and> finalPDF (snd (mergePDFs env paths (snd (createPDFsFromImages env s1 w))))
                 = finalPDF (snd (mergePDFs env paths (snd (createPDFsFromImages env s2 w)))))
       \<and> (\<forall>w0. snd (analyzeAndCompressImages env (log LogStart w0)) = w \<longrightarrow>
             fst (main env s1 w0) = fst (main env s2 w0)
             \<and> finalPDF (snd (main env s1 w0)) = finalPDF (snd (main env s2 w0))
             \<and> printed (snd (main env s1 w0)) = printed (snd (main env s2 w0))
             \<and> (fst (main env s1 w0) = Succeeded
                  \<longrightarrow> snd (main env s1 w0) = snd (main env s2 w0)))"
proof -
  let ?a = "snd (createPDFsFromImages env s1 w)"
  let ?b = "snd (createPDFsFromImages env s2 w)"
  note two = generation_two_orders_frame [OF assms]
  have gen: "paths = map (\<lambda>k. Pdf (pdf_name env k)) [1 ..< Suc (task_count env w)]
             \<and> (\<forall>p. readFileSync ?a p = readFileSync ?b p)
             \<and> (\<forall>p. document_pages env ?a p = document_pages env ?b p)
             \<and> merge_loop env ?a paths [] = merge_loop env ?b paths []
             \<and> fst (mergePDFs env paths ?a) = fst (mergePDFs env paths ?b)
             \<and> finalPDF (snd (mergePDFs env paths ?a)) = finalPDF (snd (mergePDFs env paths ?b))"
    if "fst (createPDFsFromImages env s1 w) = Inr paths" for paths
  proof -
    have p: "paths = map (\<lambda>k. Pdf (pdf_name env k)) [1 ..< Suc (task_count env w)]"
      and ent: "\<forall>m. entry (pdfFolder ?a) m = entry (pdfFolder ?b) m"
      by (rule generation_two_orders_ok [OF assms that])+
    have fr: "inputFolder ?a = inputFolder ?b" "compressedFolder ?a = compressedFolder ?b"
      "finalPDF ?a = finalPDF ?b" by (rule two)+
    have reads: "\<forall>p. readFileSync ?a p = readFileSync ?b p"
      using read_same_entries [OF fr ent] by simp
    have docs: "\<forall>p. document_pages env ?a p = document_pages env ?b p"
      using reads document_pages_same_reads [of ?a _ ?b env] by blast
    show ?thesis
      using p reads docs
        merge_loop_same_reads [OF reads, of env paths "[]"]
        mergePDFs_same_reads [OF reads fr(3), of env paths]
      by blast
  qed
  have run: "fst (main env s1 w0) = fst (main env s2 w0)
             \<and> finalPDF (snd (main env s1 w0)) = finalPDF (snd (main env s2 w0))
             \<and> printed (snd (main env s1 w0)) = printed (snd (main env s2 w0))
             \<and> (fst (main env s1 w0) = Succeeded
                  \<longrightarrow> snd (main env s1 w0) = snd (main env s2 w0))"
    if "snd (analyzeAndCompressImages env (log LogStart w0)) = w" for w0
    by (rule main_two_orders [OF assms that])
  have "fst (createPDFsFromImages env s1 w) = fst (createPDFsFromImages env s2 w)"
    and "printed ?a = printed ?b" by (rule two)+
  then show ?thesis
    using gen run by blast
qed

lemma sixteen_count:
  "task_count demo_env
     \<lparr>inputFolder = None, compressedFolder = Some (Dir sixteen_images),
      pdfFolder = Some (Dir []), finalPDF = None, printed = []\<rparr> = 2"
proof -
  have names: "map fst sixteen_images = map (\<lambda>n. decimal n @ ''.jpg'') [0 ..< 16]"
    by (simp add: sixteen_images_def comp_def del: upt_rec_numeral)
  have keep: "filter (is_image_name demo_env) (map (\<lambda>n. decimal n @ ''.jpg'') [0 ..< 16])
                = map (\<lambda>n. decimal n @ ''.jpg'') [0 ..< 16]"
    by (rule filter_True) (auto simp: is_image_name_def demo_env_def)
  have "length (chunk_tasks (map (\<lambda>n. decimal n @ ''.jpg'') [0 ..< 16])) = 2"
    by (simp add: chunk_tasks_def chunk_loop_length del: upt_rec_numeral)
  then show ?thesis
    by (simp add: task_count_def readdirSync_def names keep del: upt_rec_numeral)
qed

lemma sixteen_generated:
  assumes "completion_order 2 sched"
  shows "fst (createPDFsFromImages demo_env sched
          \<lparr>inputFolder = None, compressedFolder = Some (Dir sixteen_images),
           pdfFolder = Some (Dir []), finalPDF = None, printed = []\<rparr>)
         = Inr [Pdf (pdf_name demo_env 1), Pdf (pdf_name demo_env 2)]"
proof -
  let ?w = "\<lparr>inputFolder = None, compressedFolder = Some (Dir sixteen_images),
           pdfFolder = Some (Dir []), finalPDF = None, printed = []\<rparr>"
  have rd: "readdirSync (compressedFolder ?w) = Inr (map fst sixteen_images)"
    by (simp add: readdirSync_def)
  have co: "completion_order (task_count demo_env ?w) sched"
    using assms by (simp only: sixteen_count)
  have cw: "\<forall>k < task_count demo_env ?w. can_write (pdfFolder ?w) (pdf_name demo_env (Suc k))"
    by (simp add: can_write_def)
  have l: "[1 ..< Suc 2] = [1, 2 :: nat]"
    by (simp add: upt_rec)
  from generation_cases [OF rd co] cw
  obtain w2 where "createPDFsFromImages demo_env sched ?w
                    = (Inr (map (\<lambda>k. Pdf (pdf_name demo_env k)) [1 ..< Suc (task_count demo_env ?w)]), w2)"
    by blast
  then show ?thesis
    by (simp only: sixteen_count l) simp
qed

theorem completion_order_independent_witness:
  "fst (createPDFsFromImages demo_env [0, 1]
          \<lparr>inputFolder = None, compressedFolder = Some (Dir sixteen_images),
           pdfFolder = Some (Dir []), finalPDF = None, printed = []\<rparr>)
   = Inr [Pdf (pdf_name demo_env 1), Pdf (pdf_name demo_env 2)]
   \<and> fst (createPDFsFromImages demo_env [1, 0]
          \<lparr>inputFolder = None, compressedFolder = Some (Dir sixteen_images),
           pdfFolder = Some (Dir []), finalPDF = None, printed = []\<rparr>)
   = Inr [Pdf (pdf_name demo_env 1), Pdf (pdf_name demo_env 2)]
   \<and> completion_order 2 [0, 1] \<and> completion_order 2 [1, 0]"
proof -
  let ?w = "\<lparr>inputFolder = None, compressedFolder = Some (Dir sixteen_images),
           pdfFolder = Some (Dir []), finalPDF = None, printed = []\<rparr>"
  have a: "completion_order 2 [0, 1]" and b: "completion_order 2 [1, 0]"
    by (auto simp: completion_order_def)
  have a': "completion_order (task_count demo_env ?w) [0, 1]"
    and b': "completion_order (task_count demo_env ?w) [1, 0]"
    using a b by (simp_all only: sixteen_count)
  have "fst (createPDFsFromImages demo_env [0, 1] ?w)
          = fst (createPDFsFromImages demo_env [1, 0] ?w)"
    using completion_order_independent [OF a' b'] by blast
  then show ?thesis
    using sixteen_generated [OF b] a b by simp
qed

end
